theory Spec2Isabelle
  imports Complex_Main "HOL-Library.Word"
begin

section \<open>Values of the platform\<close>

text \<open>
  The audio utilities compute on JavaScript numbers. The numbers the code handles are
  samples read from a \<open>Float32Array\<close>, 16-bit integers read from an \<open>Int16Array\<close>, and
  the products and quotients of these with the constants 32768 and 32767. A finite
  float32 or int16 value is a dyadic rational with at most 24 significant bits, and its
  product with a 15-bit or 16-bit constant has fewer than 53 significant bits, so the
  IEEE double arithmetic of the source is exact on them: the model computes with
  rationals, and keeps the three values that are not rationals.
\<close>

datatype number = Val rat | PosInf | NegInf | NaN

type_synonym byte = "8 word"

text \<open>The operator \<open><\<close>: false as soon as one operand is \<open>NaN\<close>.\<close>

fun js_less :: "number \<Rightarrow> number \<Rightarrow> bool" where
  "js_less NaN _ = False"
| "js_less _ NaN = False"
| "js_less (Val a) (Val b) = (a < b)"
| "js_less NegInf NegInf = False"
| "js_less NegInf _ = True"
| "js_less _ NegInf = False"
| "js_less PosInf _ = False"
| "js_less _ PosInf = True"

definition Math_min :: "number \<Rightarrow> number \<Rightarrow> number" where
  "Math_min a b = (if a = NaN \<or> b = NaN then NaN else if js_less b a then b else a)"

definition Math_max :: "number \<Rightarrow> number \<Rightarrow> number" where
  "Math_max a b = (if a = NaN \<or> b = NaN then NaN else if js_less a b then b else a)"

text \<open>The operators \<open>*\<close> and \<open>/\<close> with a finite right operand, as the code uses them.\<close>

fun js_times :: "number \<Rightarrow> rat \<Rightarrow> number" where
  "js_times (Val a) c = Val (a * c)"
| "js_times NaN c = NaN"
| "js_times PosInf c = (if c = 0 then NaN else if 0 < c then PosInf else NegInf)"
| "js_times NegInf c = (if c = 0 then NaN else if 0 < c then NegInf else PosInf)"

fun js_div :: "number \<Rightarrow> rat \<Rightarrow> number" where
  "js_div (Val a) c =
     (if c \<noteq> 0 then Val (a / c) else if a = 0 then NaN else if 0 < a then PosInf else NegInf)"
| "js_div NaN c = NaN"
| "js_div PosInf c = (if 0 \<le> c then PosInf else NegInf)"
| "js_div NegInf c = (if 0 \<le> c then NegInf else PosInf)"

text \<open>
  The integer conversions of the platform drop the fraction (rounding towards zero), send
  \<open>NaN\<close> and the infinities to 0, and wrap modulo the width. \<open>ToUint16\<close> gives the 16
  bits that \<open>setInt16\<close> writes, \<open>ToInt16\<close> the signed integer that they stand for.
\<close>

definition trunc :: "rat \<Rightarrow> int" where
  "trunc r = (if r < 0 then - \<lfloor>- r\<rfloor> else \<lfloor>r\<rfloor>)"

fun ToInteger :: "number \<Rightarrow> int" where
  "ToInteger (Val r) = trunc r"
| "ToInteger _ = 0"

definition ToUint16 :: "number \<Rightarrow> nat" where
  "ToUint16 x = nat (ToInteger x mod 65536)"

definition ToInt16 :: "number \<Rightarrow> int" where
  "ToInt16 x = (let u = int (ToUint16 x) in if 32768 \<le> u then u - 65536 else u)"

section \<open>Errors\<close>

text \<open>
  The source declares no exception class of its own: a call fails with what a platform
  call throws. The model names a failure after the call it comes from.
  \<^item> \<open>AllocationError\<close>: \<open>ctx.createBuffer\<close> threw (the buffer could not be created).
  \<^item> \<open>UnsupportedFormatError\<close>: the \<open>MediaRecorder\<close> constructor threw (the MIME type
    was rejected).
  \<^item> \<open>TranscodeError\<close>: the recorder's \<open>error\<close> event, with which the promise is rejected.
  \<^item> \<open>IndexSizeError\<close>: \<open>getChannelData\<close> of a channel the buffer does not have.
  \<^item> \<open>RangeError\<close>: a \<open>DataView\<close> write outside the view.
  \<^item> \<open>MalformedInputError\<close>: a rejection of the input bytes by the code itself.
\<close>

datatype error =
    MalformedInputError
  | AllocationError
  | UnsupportedFormatError
  | TranscodeError
  | IndexSizeError
  | RangeError

text \<open>Sequencing: a thrown error skips the rest.\<close>

fun andThen :: "error + 'a \<Rightarrow> ('a \<Rightarrow> error + 'b) \<Rightarrow> error + 'b" where
  "andThen (Inl e) f = Inl e"
| "andThen (Inr x) f = f x"

section \<open>Audio buffers and blobs\<close>

text \<open>
  An \<open>AudioBuffer\<close> holds its sample rate and one \<open>Float32Array\<close> per channel;
  \<open>numberOfChannels\<close> is the number of these arrays. Sample rates are whole numbers of
  hertz, as everywhere in the repository (24000). A \<open>Blob\<close> is its bytes and its type.
\<close>

record AudioBuffer =
  sampleRate :: nat
  channels :: "number list list"

definition numberOfChannels :: "AudioBuffer \<Rightarrow> nat" where
  "numberOfChannels buffer = length (channels buffer)"

definition getChannelData :: "AudioBuffer \<Rightarrow> nat \<Rightarrow> error + number list" where
  "getChannelData buffer channel =
     (if channel < numberOfChannels buffer then Inr (channels buffer ! channel)
      else Inl IndexSizeError)"

record Blob =
  blob_bytes :: "byte list"
  blob_type :: string

section \<open>The DataView\<close>

text \<open>
  A \<open>DataView\<close> over a fresh \<open>ArrayBuffer\<close> is the list of its bytes. A write of \<open>n\<close>
  bytes at \<open>offset\<close> throws \<open>RangeError\<close> unless \<open>offset + n\<close> is within the view.
\<close>

type_synonym DataView = "byte list"

definition store :: "DataView \<Rightarrow> nat \<Rightarrow> byte list \<Rightarrow> error + DataView" where
  "store view offset bs =
     (if offset + length bs \<le> length view
      then Inr (take offset view @ bs @ drop (offset + length bs) view)
      else Inl RangeError)"

definition setUint8 :: "DataView \<Rightarrow> nat \<Rightarrow> nat \<Rightarrow> error + DataView" where
  "setUint8 view offset v = store view offset [of_nat (v mod 256)]"

definition setUint16 :: "DataView \<Rightarrow> nat \<Rightarrow> nat \<Rightarrow> bool \<Rightarrow> error + DataView" where
  "setUint16 view offset v littleEndian =
     (let u = v mod 65536;
          bs = [of_nat (u mod 256), of_nat (u div 256)]
      in store view offset (if littleEndian then bs else rev bs))"

definition setUint32 :: "DataView \<Rightarrow> nat \<Rightarrow> nat \<Rightarrow> bool \<Rightarrow> error + DataView" where
  "setUint32 view offset v littleEndian =
     (let u = v mod 4294967296;
          bs = [of_nat (u mod 256), of_nat (u div 256 mod 256),
                of_nat (u div 65536 mod 256), of_nat (u div 16777216)]
      in store view offset (if littleEndian then bs else rev bs))"

definition setInt16 :: "DataView \<Rightarrow> nat \<Rightarrow> number \<Rightarrow> bool \<Rightarrow> error + DataView" where
  "setInt16 view offset x littleEndian =
     (let u = ToUint16 x;
          bs = [of_nat (u mod 256), of_nat (u div 256)]
      in store view offset (if littleEndian then bs else rev bs))"

section \<open>The WAV encoder\<close>

fun writeString :: "DataView \<Rightarrow> nat \<Rightarrow> string \<Rightarrow> error + DataView" where
  "writeString view offset [] = Inr view"
| "writeString view offset (c # cs) =
     andThen (setUint8 view offset (of_char c)) (\<lambda>view. writeString view (offset + 1) cs)"

text \<open>One step of the loop of \<open>floatTo16BitPCM\<close>: the number handed to \<open>setInt16\<close>.\<close>

definition pcmSample :: "number \<Rightarrow> number" where
  "pcmSample x =
     (let s = Math_max (Val (- 1)) (Math_min (Val 1) x)
      in if js_less s (Val 0) then js_times s 32768 else js_times s 32767)"

fun floatTo16BitPCM :: "DataView \<Rightarrow> nat \<Rightarrow> number list \<Rightarrow> error + DataView" where
  "floatTo16BitPCM output offset [] = Inr output"
| "floatTo16BitPCM output offset (x # input) =
     andThen (setInt16 output offset (pcmSample x) True)
       (\<lambda>output. floatTo16BitPCM output (offset + 2) input)"

text \<open>
  \<open>encodeWAV\<close> is called from \<open>audioBufferToWav\<close> alone, with \<open>format = 1\<close> and
  \<open>bitDepth = 16\<close>; \<open>bitDepth / 8\<close> is then the whole number 2. The branch for another
  format (\<open>writeFloat32\<close>, the IEEE bytes of each sample) is not taken from there and is
  not part of the model: \<open>encodeWAV\<close> below is the source function where \<open>format\<close> is 1,
  and \<open>format\<close> only names the value written into the header.
\<close>

definition encodeWAV :: "number list \<Rightarrow> nat \<Rightarrow> nat \<Rightarrow> nat \<Rightarrow> nat \<Rightarrow> error + Blob" where
  "encodeWAV samples format rate numChannels bitDepth =
     (let bytesPerSample = bitDepth div 8;
          blockAlign = numChannels * bytesPerSample;
          view = replicate (44 + length samples * bytesPerSample) (0 :: byte)
      in
      andThen (writeString view 0 ''RIFF'') (\<lambda>view.
      andThen (setUint32 view 4 (36 + length samples * bytesPerSample) True) (\<lambda>view.
      andThen (writeString view 8 ''WAVE'') (\<lambda>view.
      andThen (writeString view 12 ''fmt '') (\<lambda>view.
      andThen (setUint32 view 16 16 True) (\<lambda>view.
      andThen (setUint16 view 20 format True) (\<lambda>view.
      andThen (setUint16 view 22 numChannels True) (\<lambda>view.
      andThen (setUint32 view 24 rate True) (\<lambda>view.
      andThen (setUint32 view 28 (rate * blockAlign) True) (\<lambda>view.
      andThen (setUint16 view 32 blockAlign True) (\<lambda>view.
      andThen (setUint16 view 34 bitDepth True) (\<lambda>view.
      andThen (writeString view 36 ''data'') (\<lambda>view.
      andThen (setUint32 view 40 (length samples * bytesPerSample) True) (\<lambda>view.
      andThen (floatTo16BitPCM view 44 samples) (\<lambda>view.
      Inr \<lparr>blob_bytes = view, blob_type = ''audio/wav''\<rparr>)))))))))))))))"

text \<open>
  \<open>interleave\<close>: the result has \<open>inputL.length + inputR.length\<close> elements; each round
  of the loop writes \<open>inputL[inputIndex]\<close> and \<open>inputR[inputIndex]\<close>. A read past the end
  of a typed array is \<open>undefined\<close>, stored as \<open>NaN\<close>; a write past the end of the result
  is dropped.
\<close>

definition typedGet :: "number list \<Rightarrow> nat \<Rightarrow> number" where
  "typedGet xs i = (if i < length xs then xs ! i else NaN)"

function interleaveLoop ::
  "number list \<Rightarrow> number list \<Rightarrow> nat \<Rightarrow> number list \<Rightarrow> nat \<Rightarrow> nat \<Rightarrow> number list" where
  "interleaveLoop inputL inputR len result index inputIndex =
     (if index < len
      then interleaveLoop inputL inputR len
             ((result[index := typedGet inputL inputIndex])
                [index + 1 := typedGet inputR inputIndex])
             (index + 2) (inputIndex + 1)
      else result)"
  by pat_completeness auto
termination
  by (relation "measure (\<lambda>(inputL, inputR, len, result, index, inputIndex). len - index)") auto

definition interleave :: "number list \<Rightarrow> number list \<Rightarrow> number list" where
  "interleave inputL inputR =
     (let len = length inputL + length inputR;
          result = replicate len (Val 0)
      in interleaveLoop inputL inputR len result 0 0)"

definition audioBufferToWav :: "AudioBuffer \<Rightarrow> error + Blob" where
  "audioBufferToWav buffer =
     (let numChannels = numberOfChannels buffer;
          rate = sampleRate buffer;
          format = 1;
          bitDepth = 16
      in
      andThen
        (if numChannels = 2
         then andThen (getChannelData buffer 0) (\<lambda>inputL.
              andThen (getChannelData buffer 1) (\<lambda>inputR.
              Inr (interleave inputL inputR)))
         else getChannelData buffer 0)
        (\<lambda>result. encodeWAV result format rate numChannels bitDepth))"

section \<open>The PCM decoder\<close>

text \<open>
  \<open>data\<close> is the \<open>Uint8Array\<close> that \<open>decodeBase64\<close> returns: a view of a whole buffer,
  at byte offset 0. The platform stores the elements of an \<open>Int16Array\<close> low byte first.
  \<open>new Int16Array(buffer, 0, length)\<close> throws \<open>RangeError\<close> when the buffer is shorter
  than \<open>2 * length\<close> bytes.
\<close>

definition int16At :: "byte \<Rightarrow> byte \<Rightarrow> int" where
  "int16At lo hi =
     (let u = int (unat lo) + 256 * int (unat hi) in if 32768 \<le> u then u - 65536 else u)"

fun int16Elements :: "byte list \<Rightarrow> nat \<Rightarrow> int list" where
  "int16Elements (lo # hi # buffer) (Suc n) = int16At lo hi # int16Elements buffer n"
| "int16Elements buffer n = []"

definition Int16Array :: "byte list \<Rightarrow> nat \<Rightarrow> error + int list" where
  "Int16Array buffer len =
     (if 2 * len \<le> length buffer then Inr (int16Elements buffer len) else Inl RangeError)"

text \<open>
  Of the \<open>AudioContext\<close> the decoder uses \<open>createBuffer\<close> alone. The context is a
  parameter: it says for which \<open>numberOfChannels\<close>, \<open>length\<close> and \<open>sampleRate\<close> the
  platform creates a buffer. A created buffer has that many channels of that many
  samples, all zero. The \<open>length\<close> argument is an \<open>unsigned long\<close>: the platform drops the
  fraction of the number it is given and wraps it modulo \<open>2 ^ 32\<close>.
\<close>

type_synonym AudioContext = "nat \<Rightarrow> nat \<Rightarrow> nat \<Rightarrow> bool"

definition toUnsignedLong :: "rat \<Rightarrow> nat" where
  "toUnsignedLong q = nat (trunc q mod 4294967296)"

definition createBuffer :: "AudioContext \<Rightarrow> nat \<Rightarrow> rat \<Rightarrow> nat \<Rightarrow> error + AudioBuffer" where
  "createBuffer ctx numChannels len rate =
     (if ctx numChannels (toUnsignedLong len) rate
      then Inr \<lparr>sampleRate = rate,
                channels = replicate numChannels (replicate (toUnsignedLong len) (Val 0))\<rparr>
      else Inl AllocationError)"

text \<open>
  A read of \<open>dataInt16\<close> past its end is \<open>undefined\<close>, and \<open>undefined / 32768.0\<close> is
  \<open>NaN\<close>. A write to \<open>channelData\<close> past its end is dropped, as a list update is.
\<close>

definition int16Get :: "int list \<Rightarrow> nat \<Rightarrow> number" where
  "int16Get xs i = (if i < length xs then Val (of_int (xs ! i)) else NaN)"

function fillFrames ::
  "int list \<Rightarrow> nat \<Rightarrow> rat \<Rightarrow> nat \<Rightarrow> number list \<Rightarrow> nat \<Rightarrow> number list" where
  "fillFrames dataInt16 numChannels frameCount channel channelData i =
     (if of_nat i < frameCount
      then fillFrames dataInt16 numChannels frameCount channel
             (channelData[i := js_div (int16Get dataInt16 (i * numChannels + channel)) 32768])
             (i + 1)
      else channelData)"
  by pat_completeness auto
termination
proof (relation "measure (\<lambda>(dataInt16, numChannels, frameCount, channel, channelData, i).
                            nat \<lceil>frameCount\<rceil> - i)")
  show "wf (measure (\<lambda>(dataInt16 :: int list, numChannels :: nat, frameCount :: rat,
                         channel :: nat, channelData :: number list, i :: nat).
                       nat \<lceil>frameCount\<rceil> - i))"
    by simp
next
  fix dataInt16 :: "int list" and numChannels :: nat and frameCount :: rat
    and channel :: nat and channelData :: "number list" and i :: nat
  assume "of_nat i < frameCount"
  then have "int i < \<lceil>frameCount\<rceil>"
    by (simp add: less_ceiling_iff)
  then show "((dataInt16, numChannels, frameCount, channel,
                channelData[i := js_div (int16Get dataInt16 (i * numChannels + channel)) 32768],
                i + 1),
               (dataInt16, numChannels, frameCount, channel, channelData, i))
             \<in> measure (\<lambda>(dataInt16, numChannels, frameCount, channel, channelData, i).
                           nat \<lceil>frameCount\<rceil> - i)"
    by simp
qed

function fillChannels ::
  "int list \<Rightarrow> nat \<Rightarrow> rat \<Rightarrow> AudioBuffer \<Rightarrow> nat \<Rightarrow> error + AudioBuffer" where
  "fillChannels dataInt16 numChannels frameCount buffer channel =
     (if channel < numChannels
      then andThen (getChannelData buffer channel) (\<lambda>channelData.
             fillChannels dataInt16 numChannels frameCount
               (buffer\<lparr>channels := (channels buffer)
                  [channel := fillFrames dataInt16 numChannels frameCount channel channelData 0]\<rparr>)
               (channel + 1))
      else Inr buffer)"
  by pat_completeness auto
termination
  by (relation "measure (\<lambda>(dataInt16, numChannels, frameCount, buffer, channel).
                           numChannels - channel)") auto

text \<open>
  \<open>data.byteLength / 2\<close> and \<open>dataInt16.length / numChannels\<close> are quotients of numbers,
  not of integers: the first is given to the \<open>Int16Array\<close> constructor, which drops its
  fraction; the second is \<open>frameCount\<close>, given as it is to \<open>createBuffer\<close> and to the bound
  of the loop. With \<open>numChannels = 0\<close> the second quotient is \<open>Infinity\<close> or \<open>NaN\<close>, which
  \<open>createBuffer\<close> reads as the length 0, and the loop over the channels does not run: the
  model takes 0 for it.
\<close>

definition decodeAudioData ::
  "byte list \<Rightarrow> AudioContext \<Rightarrow> nat \<Rightarrow> nat \<Rightarrow> error + AudioBuffer" where
  "decodeAudioData data ctx rate numChannels =
     andThen (Int16Array data (nat (trunc (of_nat (length data) / 2)))) (\<lambda>dataInt16.
     let frameCount =
           (if numChannels = 0 then 0 else of_nat (length dataInt16) / of_nat numChannels)
     in
     andThen (createBuffer ctx numChannels frameCount rate) (\<lambda>buffer.
     fillChannels dataInt16 numChannels frameCount buffer 0))"

section \<open>The format probe\<close>

record AudioFormat =
  label :: string
  mimeType :: string
  ext :: string

text \<open>
  The platform is a parameter: \<open>None\<close> when \<open>typeof MediaRecorder\<close> is \<open>'undefined'\<close>, and
  otherwise \<open>MediaRecorder.isTypeSupported\<close>. A candidate is its \<open>mime\<close>, \<open>ext\<close> and
  \<open>label\<close>, in the order the source writes them.
\<close>

type_synonym MediaRecorderGlobal = "(string \<Rightarrow> bool) option"

definition candidates :: "(string \<times> string \<times> string) list" where
  "candidates =
     [(''audio/mp4'', ''mp4'', ''MP4 (AAC)''),
      (''audio/webm;codecs=opus'', ''webm'', ''WebM (Opus)''),
      (''audio/webm'', ''webm'', ''WebM''),
      (''audio/ogg'', ''ogg'', ''Ogg (Vorbis)'')]"

text \<open>The body of the \<open>forEach\<close>, and the loop over a list of candidates.\<close>

definition addCandidate ::
  "(string \<Rightarrow> bool) \<Rightarrow> AudioFormat list \<Rightarrow> string \<times> string \<times> string \<Rightarrow> AudioFormat list" where
  "addCandidate isTypeSupported formats c =
     (case c of (mime, ext', label') \<Rightarrow>
        if isTypeSupported mime
        then (if find (\<lambda>f. mimeType f = mime) formats = None
              then formats @ [\<lparr>label = label', mimeType = mime, ext = ext'\<rparr>]
              else formats)
        else formats)"

definition getSupportedFormats :: "MediaRecorderGlobal \<Rightarrow> AudioFormat list" where
  "getSupportedFormats MediaRecorder =
     (let formats = [\<lparr>label = ''WAV (Uncompressed)'', mimeType = ''audio/wav'', ext = ''wav''\<rparr>]
      in case MediaRecorder of
           None \<Rightarrow> formats
         | Some isTypeSupported \<Rightarrow> foldl (addCandidate isTypeSupported) formats candidates)"

section \<open>The transcoder\<close>

text \<open>
  \<open>transcodeToBlob\<close> creates an audio context, then a recorder, then returns a promise
  whose executor installs the handlers and starts the recorder and the source. From
  then on the code runs only in the callbacks the platform calls. The model takes the
  platform as two parameters: whether the \<open>MediaRecorder\<close> constructor accepts the MIME
  type, and the sequence of callbacks that the platform calls afterwards. The callback
  of \<open>setTimeout\<close> reads \<open>recorder.state\<close>, which the platform owns: the event carries
  the value read.
  The state counts the contexts created, the calls of \<open>ctx.close()\<close> and the calls of
  \<open>recorder.stop()\<close>, and holds the chunks, the timeouts pending, and the promise:
  \<open>None\<close> while pending, then the first value it was resolved or rejected with.
\<close>

datatype RecordingState = inactive | recording | paused

datatype Event =
    DataAvailable "byte list"
  | Stop
  | Error
  | Ended
  | Timeout RecordingState

record Transcode =
  opened :: nat
  closed :: nat
  chunks :: "byte list list"
  stopCalls :: nat
  timeouts :: nat
  promise :: "(error + Blob) option"

definition settle :: "error + Blob \<Rightarrow> Transcode \<Rightarrow> Transcode" where
  "settle r t = (if promise t = None then t\<lparr>promise := Some r\<rparr> else t)"

fun handle :: "string \<Rightarrow> Transcode \<Rightarrow> Event \<Rightarrow> Transcode" where
  "handle mime t (DataAvailable d) =
     (if 0 < length d then t\<lparr>chunks := chunks t @ [d]\<rparr> else t)"
| "handle mime t Stop =
     (let blob = \<lparr>blob_bytes = concat (chunks t), blob_type = mime\<rparr>
      in settle (Inr blob) (t\<lparr>closed := closed t + 1\<rparr>))"
| "handle mime t Error =
     settle (Inl TranscodeError) (t\<lparr>closed := closed t + 1\<rparr>)"
| "handle mime t Ended = t\<lparr>timeouts := timeouts t + 1\<rparr>"
| "handle mime t (Timeout state) =
     (if timeouts t = 0 then t
      else let t = t\<lparr>timeouts := timeouts t - 1\<rparr>
           in if state \<noteq> inactive then t\<lparr>stopCalls := stopCalls t + 1\<rparr> else t)"

definition transcodeToBlob ::
  "(string \<Rightarrow> bool) \<Rightarrow> AudioBuffer \<Rightarrow> string \<Rightarrow> Event list \<Rightarrow> Transcode" where
  "transcodeToBlob accepts audioBuffer mime events =
     (let t = \<lparr>opened = 1, closed = 0, chunks = [], stopCalls = 0, timeouts = 0,
                promise = None\<rparr>
      in if accepts mime
         then foldl (handle mime) t events
         else t\<lparr>promise := Some (Inl UnsupportedFormatError)\<rparr>)"

section \<open>Reading the results\<close>

text \<open>
  The bytes that the writes of the \<open>DataView\<close> produce: the low byte first for the
  integers, one byte per character for the strings.
\<close>

definition le16 :: "nat \<Rightarrow> byte list" where
  "le16 v = [of_nat (v mod 65536 mod 256), of_nat (v mod 65536 div 256)]"

definition le32 :: "nat \<Rightarrow> byte list" where
  "le32 v =
     (let u = v mod 4294967296
      in [of_nat (u mod 256), of_nat (u div 256 mod 256),
          of_nat (u div 65536 mod 256), of_nat (u div 16777216)])"

definition ascii :: "string \<Rightarrow> byte list" where
  "ascii s = map (\<lambda>c. of_nat (of_char c mod 256)) s"

definition pcmBytes :: "number \<Rightarrow> byte list" where
  "pcmBytes x = (let u = ToUint16 (pcmSample x) in [of_nat (u mod 256), of_nat (u div 256)])"

definition wavHeader :: "nat \<Rightarrow> nat \<Rightarrow> nat \<Rightarrow> nat \<Rightarrow> nat \<Rightarrow> byte list" where
  "wavHeader dataSize format rate numChannels bitDepth =
     ascii ''RIFF'' @ le32 (36 + dataSize) @ ascii ''WAVE'' @ ascii ''fmt '' @ le32 16 @
     le16 format @ le16 numChannels @ le32 rate @ le32 (rate * (numChannels * 2)) @
     le16 (numChannels * 2) @ le16 bitDepth @ ascii ''data'' @ le32 dataSize"

text \<open>
  The conversion of a finite sample in the words of the specification: clamp to
  \<open>[-1, 1]\<close>, scale by 32767 if the clamped value is at least 0 and by 32768 otherwise,
  drop the fraction.
\<close>

definition pcm16 :: "rat \<Rightarrow> int" where
  "pcm16 s = (let c = max (- 1) (min 1 s) in trunc (c * (if 0 \<le> c then 32767 else 32768)))"

definition pcm16Number :: "number \<Rightarrow> int" where
  "pcm16Number x =
     (case x of Val r \<Rightarrow> pcm16 r | PosInf \<Rightarrow> 32767 | NegInf \<Rightarrow> - 32768 | NaN \<Rightarrow> 0)"

text \<open>
  A reader of the WAV bytes: the 16-bit samples of the payload after the 44 bytes of the
  header, low byte first.
\<close>

definition pcmPayload :: "byte list \<Rightarrow> int list" where
  "pcmPayload bs = int16Elements (drop 44 bs) ((length bs - 44) div 2)"

text \<open>The WAV descriptor, and the descriptor made of a candidate.\<close>

definition wavFormat :: AudioFormat where
  "wavFormat = \<lparr>label = ''WAV (Uncompressed)'', mimeType = ''audio/wav'', ext = ''wav''\<rparr>"

definition toFormat :: "string \<times> string \<times> string \<Rightarrow> AudioFormat" where
  "toFormat c = (case c of (mime, ext', label') \<Rightarrow> \<lparr>label = label', mimeType = mime, ext = ext'\<rparr>)"

text \<open>The order \<open>[L0, R0, L1, R1, ...]\<close> of two channels.\<close>

fun interleaved :: "'a list \<Rightarrow> 'a list \<Rightarrow> 'a list" where
  "interleaved (l # ls) (r # rs) = l # r # interleaved ls rs"
| "interleaved ls rs = []"

text \<open>
  A reader of the 44 bytes of the header, field by field at the offsets of the canonical
  RIFF/WAVE layout: the integers low byte first, the identifiers as characters.
\<close>

record WavFields =
  hdrChunkID :: string
  hdrChunkSize :: nat
  hdrFormat :: string
  hdrSubchunk1ID :: string
  hdrSubchunk1Size :: nat
  hdrAudioFormat :: nat
  hdrNumChannels :: nat
  hdrSampleRate :: nat
  hdrByteRate :: nat
  hdrBlockAlign :: nat
  hdrBitsPerSample :: nat
  hdrSubchunk2ID :: string
  hdrSubchunk2Size :: nat

definition leNat :: "byte list \<Rightarrow> nat" where
  "leNat bs = foldr (\<lambda>b n. unat b + 256 * n) bs 0"

definition chars :: "byte list \<Rightarrow> string" where
  "chars bs = map (\<lambda>b. char_of (unat b)) bs"

definition field :: "byte list \<Rightarrow> nat \<Rightarrow> nat \<Rightarrow> byte list" where
  "field bs offset n = take n (drop offset bs)"

definition readHeader :: "byte list \<Rightarrow> WavFields" where
  "readHeader bs =
     \<lparr>hdrChunkID = chars (field bs 0 4),
      hdrChunkSize = leNat (field bs 4 4),
      hdrFormat = chars (field bs 8 4),
      hdrSubchunk1ID = chars (field bs 12 4),
      hdrSubchunk1Size = leNat (field bs 16 4),
      hdrAudioFormat = leNat (field bs 20 2),
      hdrNumChannels = leNat (field bs 22 2),
      hdrSampleRate = leNat (field bs 24 4),
      hdrByteRate = leNat (field bs 28 4),
      hdrBlockAlign = leNat (field bs 32 2),
      hdrBitsPerSample = leNat (field bs 34 2),
      hdrSubchunk2ID = chars (field bs 36 4),
      hdrSubchunk2Size = leNat (field bs 40 4)\<rparr>"

text \<open>
  The platform's buffers have at least one channel, and all their channels have the
  same number of samples, the buffer's \<open>length\<close>.
\<close>

definition frames :: "AudioBuffer \<Rightarrow> nat" where
  "frames buffer = length (hd (channels buffer))"

definition wellFormed :: "AudioBuffer \<Rightarrow> bool" where
  "wellFormed buffer =
     (channels buffer \<noteq> [] \<and> list_all (\<lambda>ch. length ch = frames buffer) (channels buffer))"

text \<open>
  The decoded buffer in the words of the specification: the frame count is
  \<open>floor(byteLength / 2 / channels)\<close>, the bytes are 16-bit integers, low byte first, and
  the sample of channel \<open>c\<close> at frame \<open>i\<close> is \<open>int16[i * channels + c] / 32768\<close>.
\<close>

definition decoded :: "byte list \<Rightarrow> nat \<Rightarrow> nat \<Rightarrow> AudioBuffer" where
  "decoded data rate numChannels =
     (let frameCount = length data div 2 div numChannels;
          int16 = (\<lambda>k. int16At (data ! (2 * k)) (data ! (2 * k + 1)));
          sample = (\<lambda>c i. Val (of_int (int16 (i * numChannels + c)) / 32768))
      in \<lparr>sampleRate = rate,
          channels = map (\<lambda>c. map (sample c) [0..<frameCount]) [0..<numChannels]\<rparr>)"

text \<open>A sample in \<open>[-1.0, 0.99997]\<close>.\<close>

definition inUnitRange :: "number \<Rightarrow> bool" where
  "inUnitRange x = (case x of Val q \<Rightarrow> - 1 \<le> q \<and> q \<le> 99997 / 100000 | _ \<Rightarrow> False)"

text \<open>
  Two contexts: one that creates every buffer, and one with the limits that the Web
  Audio API guarantees (1 to 32 channels, at least one frame, 8000 to 96000 hertz).
\<close>

definition lenientContext :: AudioContext where
  "lenientContext numChannels len rate = True"

definition strictContext :: AudioContext where
  "strictContext numChannels len rate =
     (1 \<le> numChannels \<and> numChannels \<le> 32 \<and> 1 \<le> len \<and> 8000 \<le> rate \<and> rate \<le> 96000)"

text \<open>
  The samples that a WAV of a buffer encodes, in their order: both channels of a stereo
  buffer, alternating, and channel 0 alone for any other number of channels.
\<close>

definition encodedSamples :: "AudioBuffer \<Rightarrow> number list" where
  "encodedSamples buffer =
     (if numberOfChannels buffer = 2
      then interleaved (channels buffer ! 0) (channels buffer ! 1)
      else hd (channels buffer))"

text \<open>
  The round trip: the 16-bit samples in the WAV of the decoded buffer. The error of the
  round trip on a sample: the sample minus its 16-bit value decoded again (divided by
  32768).
\<close>

definition roundTripPayload :: "byte list \<Rightarrow> AudioContext \<Rightarrow> nat \<Rightarrow> nat \<Rightarrow> error + int list" where
  "roundTripPayload data ctx rate numChannels =
     andThen (decodeAudioData data ctx rate numChannels) (\<lambda>buffer.
     andThen (audioBufferToWav buffer) (\<lambda>blob.
     Inr (pcmPayload (blob_bytes blob))))"

definition quantizationError :: "number \<Rightarrow> rat" where
  "quantizationError x = (case x of Val q \<Rightarrow> q - of_int (pcm16Number x) / 32768 | _ \<Rightarrow> 0)"

declare interleaveLoop.simps [simp del]

declare fillFrames.simps [simp del]

declare fillChannels.simps [simp del]

section \<open>Bytes and integers\<close>

lemma unat_byte: "n < 256 \<Longrightarrow> unat (of_nat n :: byte) = n"
  by (simp add: unat_of_nat)

lemma wrap16:
  assumes "- 32768 \<le> (i::int)" "i \<le> 32767"
  shows "(if 32768 \<le> i mod 65536 then i mod 65536 - 65536 else i mod 65536) = i"
proof (cases "i < 0")
  case True
  have "(i + 65536) mod 65536 = i + 65536"
    using assms True by (intro mod_pos_pos_trivial) auto
  then have "i mod 65536 = i + 65536" by simp
  then show ?thesis using assms True by simp
next
  case False
  then have "i mod 65536 = i" using assms by (intro mod_pos_pos_trivial) auto
  then show ?thesis using assms by simp
qed

lemma ToInt16_inrange:
  "- 32768 \<le> ToInteger x \<Longrightarrow> ToInteger x \<le> 32767 \<Longrightarrow> ToInt16 x = ToInteger x"
  using wrap16 [of "ToInteger x"] by (simp add: ToInt16_def ToUint16_def Let_def)

lemma ToUint16_lt: "ToUint16 x < 65536"
  by (simp add: ToUint16_def nat_less_iff)

lemma trunc_bounds:
  assumes "- 32768 \<le> r" "r \<le> 32767"
  shows "- 32768 \<le> trunc r \<and> trunc r \<le> 32767"
proof (cases "r < 0")
  case True
  have "\<lfloor>- r\<rfloor> \<le> 32768"
    using assms(1) by (simp add: floor_le_iff)
  moreover have "0 \<le> \<lfloor>- r\<rfloor>" using True by simp
  moreover have "trunc r = - \<lfloor>- r\<rfloor>" using True by (simp add: trunc_def)
  ultimately show ?thesis by linarith
next
  case False
  have "\<lfloor>r\<rfloor> \<le> 32767" using assms(2) by (simp add: floor_le_iff)
  moreover have "0 \<le> \<lfloor>r\<rfloor>" using False by simp
  moreover have "trunc r = \<lfloor>r\<rfloor>" using False by (simp add: trunc_def)
  ultimately show ?thesis by linarith
qed

lemma int16At_bytes:
  assumes "u < 65536"
  shows "int16At (of_nat (u mod 256)) (of_nat (u div 256))
           = (if 32768 \<le> u then int u - 65536 else int u)"
proof -
  have a: "unat (of_nat (u mod 256) :: byte) = u mod 256"
    by (simp add: unat_byte)
  have "u div 256 < 256" using assms by simp
  then have b: "unat (of_nat (u div 256) :: byte) = u div 256"
    by (simp add: unat_byte)
  have "u mod 256 + 256 * (u div 256) = u" by simp
  then have "int (u mod 256) + 256 * int (u div 256) = int u"
    by (metis of_nat_add of_nat_mult of_nat_numeral)
  then show ?thesis
    by (simp add: int16At_def a b Let_def)
qed

section \<open>The sample conversion\<close>

lemma pcmSample_Val:
  "pcmSample (Val r) = Val (let c = max (- 1) (min 1 r) in c * (if 0 \<le> c then 32767 else 32768))"
  by (auto simp: pcmSample_def Math_min_def Math_max_def Let_def max_def min_def)

lemma pcm16_bounds: "- 32768 \<le> pcm16 r \<and> pcm16 r \<le> 32767"
proof -
  define c where "c = max (- 1) (min 1 r)"
  have c: "- 1 \<le> c" "c \<le> 1" by (simp_all add: c_def)
  have "- 32768 \<le> c * (if 0 \<le> c then 32767 else 32768)
        \<and> c * (if 0 \<le> c then 32767 else 32768) \<le> 32767"
    using c by auto
  then show ?thesis
    unfolding pcm16_def Let_def c_def [symmetric] using trunc_bounds by blast
qed

lemma ToInt16_pcmSample: "ToInt16 (pcmSample x) = pcm16Number x"
proof (cases x)
  case (Val r)
  have "ToInteger (pcmSample (Val r)) = pcm16 r"
    by (simp add: pcmSample_Val pcm16_def Let_def)
  then show ?thesis
    using Val pcm16_bounds [of r] ToInt16_inrange [of "pcmSample (Val r)"]
    by (simp add: pcm16Number_def)
next
  case PosInf
  then show ?thesis
    by (simp add: pcmSample_def Math_min_def Math_max_def ToInt16_def ToUint16_def trunc_def
        pcm16Number_def)
next
  case NegInf
  then show ?thesis
    by (simp add: pcmSample_def Math_min_def Math_max_def ToInt16_def ToUint16_def trunc_def
        pcm16Number_def)
next
  case NaN
  then show ?thesis
    by (simp add: pcmSample_def Math_min_def Math_max_def ToInt16_def ToUint16_def
        pcm16Number_def)
qed

lemma int16At_pcmBytes:
  "pcmBytes x = [lo, hi] \<Longrightarrow> int16At lo hi = pcm16Number x"
  using int16At_bytes [OF ToUint16_lt, of "pcmSample x"] ToInt16_pcmSample [of x]
  by (auto simp: pcmBytes_def Let_def ToInt16_def)

lemma int16Elements_pcmBytes:
  "int16Elements (concat (map pcmBytes xs)) (length xs) = map pcm16Number xs"
proof (induction xs)
  case Nil
  then show ?case by simp
next
  case (Cons x xs)
  obtain lo hi where b: "pcmBytes x = [lo, hi]"
    by (simp add: pcmBytes_def Let_def)
  show ?case
    using Cons.IH int16At_pcmBytes [OF b] by (simp add: b)
qed

section \<open>The writes of the encoder\<close>

lemma length_ascii [simp]: "length (ascii s) = length s"
  by (simp add: ascii_def)

lemma length_le16 [simp]: "length (le16 v) = 2"
  by (simp add: le16_def)

lemma length_le32 [simp]: "length (le32 v) = 4"
  by (simp add: le32_def Let_def)

lemma length_concat_pcmBytes [simp]: "length (concat (map pcmBytes xs)) = 2 * length xs"
  by (induction xs) (simp_all add: pcmBytes_def Let_def)

lemma length_wavHeader [simp]: "length (wavHeader d f r c b) = 44"
  by (simp add: wavHeader_def)

lemma store_append:
  "length p = offset \<Longrightarrow> length bs = n \<Longrightarrow> n \<le> length rest \<Longrightarrow>
   store (p @ rest) offset bs = Inr (p @ bs @ drop n rest)"
  by (auto simp: store_def)

lemma writeString_append:
  "length p = offset \<Longrightarrow> length s \<le> length rest \<Longrightarrow>
   writeString (p @ rest) offset s = Inr (p @ ascii s @ drop (length s) rest)"
proof (induction s arbitrary: p offset rest)
  case Nil
  then show ?case by (simp add: ascii_def)
next
  case (Cons c s)
  have "setUint8 (p @ rest) offset (of_char c)
      = Inr ((p @ [of_nat (of_char c mod 256)]) @ drop 1 rest)"
    using Cons.prems by (simp add: setUint8_def store_append [where n = 1])
  moreover have "writeString ((p @ [of_nat (of_char c mod 256)]) @ drop 1 rest) (offset + 1) s
      = Inr ((p @ [of_nat (of_char c mod 256)]) @ ascii s @ drop (length s) (drop 1 rest))"
    using Cons.prems by (intro Cons.IH) auto
  ultimately show ?case by (simp add: ascii_def)
qed

lemma setUint16_append:
  "length p = offset \<Longrightarrow> 2 \<le> length rest \<Longrightarrow>
   setUint16 (p @ rest) offset v True = Inr (p @ le16 v @ drop 2 rest)"
  by (simp add: setUint16_def le16_def store_append [where n = 2] Let_def)

lemma setUint32_append:
  "length p = offset \<Longrightarrow> 4 \<le> length rest \<Longrightarrow>
   setUint32 (p @ rest) offset v True = Inr (p @ le32 v @ drop 4 rest)"
  by (simp add: setUint32_def le32_def store_append [where n = 4] Let_def)

lemma floatTo16BitPCM_append:
  "length p = offset \<Longrightarrow> 2 * length input \<le> length rest \<Longrightarrow>
   floatTo16BitPCM (p @ rest) offset input
     = Inr (p @ concat (map pcmBytes input) @ drop (2 * length input) rest)"
proof (induction input arbitrary: p offset rest)
  case Nil
  then show ?case by simp
next
  case (Cons x input)
  have "setInt16 (p @ rest) offset (pcmSample x) True = Inr ((p @ pcmBytes x) @ drop 2 rest)"
    using Cons.prems by (simp add: setInt16_def pcmBytes_def store_append [where n = 2] Let_def)
  moreover have "floatTo16BitPCM ((p @ pcmBytes x) @ drop 2 rest) (offset + 2) input
      = Inr ((p @ pcmBytes x) @ concat (map pcmBytes input)
               @ drop (2 * length input) (drop 2 rest))"
    using Cons.prems by (intro Cons.IH) (auto simp: pcmBytes_def Let_def)
  ultimately show ?case by (simp add: add.commute)
qed

lemma writeString_zeros:
  "length p = offset \<Longrightarrow> length s = k \<Longrightarrow>
   writeString (p @ replicate (k + m) 0) offset s = Inr ((p @ ascii s) @ replicate m 0)"
  using writeString_append [of p offset s "replicate (k + m) 0"] by simp

lemma setUint16_zeros:
  "length p = offset \<Longrightarrow>
   setUint16 (p @ replicate (2 + m) 0) offset v True = Inr ((p @ le16 v) @ replicate m 0)"
  using setUint16_append [of p offset "replicate (2 + m) 0" v] by simp

lemma setUint32_zeros:
  "length p = offset \<Longrightarrow>
   setUint32 (p @ replicate (4 + m) 0) offset v True = Inr ((p @ le32 v) @ replicate m 0)"
  using setUint32_append [of p offset "replicate (4 + m) 0" v] by simp

lemma floatTo16BitPCM_zeros:
  "length p = offset \<Longrightarrow>
   floatTo16BitPCM (p @ replicate (2 * length input) 0) offset input
     = Inr (p @ concat (map pcmBytes input))"
  using floatTo16BitPCM_append [of p offset input "replicate (2 * length input) 0"] by simp

lemma encodeWAV_bytes:
  "encodeWAV samples format rate numChannels 16 =
     Inr \<lparr>blob_bytes = wavHeader (2 * length samples) format rate numChannels 16
                         @ concat (map pcmBytes samples),
          blob_type = ''audio/wav''\<rparr>"
proof -
  define n where "n = 2 * length samples"
  define h1 where "h1 = ascii ''RIFF''"
  define h2 where "h2 = h1 @ le32 (36 + n)"
  define h3 where "h3 = h2 @ ascii ''WAVE''"
  define h4 where "h4 = h3 @ ascii ''fmt ''"
  define h5 where "h5 = h4 @ le32 16"
  define h6 where "h6 = h5 @ le16 format"
  define h7 where "h7 = h6 @ le16 numChannels"
  define h8 where "h8 = h7 @ le32 rate"
  define h9 where "h9 = h8 @ le32 (rate * (numChannels * 2))"
  define h10 where "h10 = h9 @ le16 (numChannels * 2)"
  define h11 where "h11 = h10 @ le16 16"
  define h12 where "h12 = h11 @ ascii ''data''"
  define h13 where "h13 = h12 @ le32 n"
  have len: "length h1 = 4" "length h2 = 8" "length h3 = 12" "length h4 = 16"
    "length h5 = 20" "length h6 = 22" "length h7 = 24" "length h8 = 28" "length h9 = 32"
    "length h10 = 34" "length h11 = 36" "length h12 = 40" "length h13 = 44"
    by (simp_all add: h1_def h2_def h3_def h4_def h5_def h6_def h7_def h8_def h9_def
        h10_def h11_def h12_def h13_def)
  have s1: "writeString (replicate (44 + n) 0) 0 ''RIFF'' = Inr (h1 @ replicate (40 + n) 0)"
    using writeString_zeros [of "[]" 0 "''RIFF''" 4 "40 + n"] by (simp add: h1_def)
  have s2: "setUint32 (h1 @ replicate (40 + n) 0) 4 (36 + n) True
      = Inr (h2 @ replicate (36 + n) 0)"
    using setUint32_zeros [of h1 4 "36 + n" "36 + n"] by (simp add: len h2_def)
  have s3: "writeString (h2 @ replicate (36 + n) 0) 8 ''WAVE'' = Inr (h3 @ replicate (32 + n) 0)"
    using writeString_zeros [of h2 8 "''WAVE''" 4 "32 + n"] by (simp add: len h3_def)
  have s4: "writeString (h3 @ replicate (32 + n) 0) 12 ''fmt '' = Inr (h4 @ replicate (28 + n) 0)"
    using writeString_zeros [of h3 12 "''fmt ''" 4 "28 + n"] by (simp add: len h4_def)
  have s5: "setUint32 (h4 @ replicate (28 + n) 0) 16 16 True = Inr (h5 @ replicate (24 + n) 0)"
    using setUint32_zeros [of h4 16 "24 + n" 16] by (simp add: len h5_def)
  have s6: "setUint16 (h5 @ replicate (24 + n) 0) 20 format True
      = Inr (h6 @ replicate (22 + n) 0)"
    using setUint16_zeros [of h5 20 "22 + n" format] by (simp add: len h6_def)
  have s7: "setUint16 (h6 @ replicate (22 + n) 0) 22 numChannels True
      = Inr (h7 @ replicate (20 + n) 0)"
    using setUint16_zeros [of h6 22 "20 + n" numChannels] by (simp add: len h7_def)
  have s8: "setUint32 (h7 @ replicate (20 + n) 0) 24 rate True = Inr (h8 @ replicate (16 + n) 0)"
    using setUint32_zeros [of h7 24 "16 + n" rate] by (simp add: len h8_def)
  have s9: "setUint32 (h8 @ replicate (16 + n) 0) 28 (rate * (numChannels * 2)) True
      = Inr (h9 @ replicate (12 + n) 0)"
    using setUint32_zeros [of h8 28 "12 + n" "rate * (numChannels * 2)"]
    by (simp add: len h9_def)
  have s10: "setUint16 (h9 @ replicate (12 + n) 0) 32 (numChannels * 2) True
      = Inr (h10 @ replicate (10 + n) 0)"
    using setUint16_zeros [of h9 32 "10 + n" "numChannels * 2"] by (simp add: len h10_def)
  have s11: "setUint16 (h10 @ replicate (10 + n) 0) 34 16 True = Inr (h11 @ replicate (8 + n) 0)"
    using setUint16_zeros [of h10 34 "8 + n" 16] by (simp add: len h11_def)
  have s12: "writeString (h11 @ replicate (8 + n) 0) 36 ''data'' = Inr (h12 @ replicate (4 + n) 0)"
    using writeString_zeros [of h11 36 "''data''" 4 "4 + n"] by (simp add: len h12_def)
  have s13: "setUint32 (h12 @ replicate (4 + n) 0) 40 n True = Inr (h13 @ replicate n 0)"
    using setUint32_zeros [of h12 40 n n] by (simp add: len h13_def)
  have s14: "floatTo16BitPCM (h13 @ replicate n 0) 44 samples
      = Inr (h13 @ concat (map pcmBytes samples))"
    using floatTo16BitPCM_zeros [of h13 44 samples] by (simp add: len n_def)
  have hdr: "h13 = wavHeader n format rate numChannels 16"
    by (simp add: wavHeader_def h1_def h2_def h3_def h4_def h5_def h6_def h7_def h8_def h9_def
        h10_def h11_def h12_def h13_def)
  have bps: "(16 :: nat) div 8 = 2" by simp
  have sz: "length samples * 2 = n" by (simp add: n_def)
  show ?thesis
    unfolding encodeWAV_def Let_def bps sz
    by (simp only: s1 s2 s3 s4 s5 s6 s7 s8 s9 s10 s11 s12 s13 s14 andThen.simps)
      (simp only: hdr n_def)
qed

lemma pcmPayload_encoded:
  "pcmPayload (wavHeader d f r c b @ concat (map pcmBytes samples)) = map pcm16Number samples"
  by (simp add: pcmPayload_def int16Elements_pcmBytes)

section \<open>Interleaving\<close>

lemma interleaved_drop:
  "k < length ls \<Longrightarrow> k < length rs \<Longrightarrow>
   interleaved (drop k ls) (drop k rs) = ls ! k # rs ! k # interleaved (drop (Suc k) ls) (drop (Suc k) rs)"
  by (simp add: Cons_nth_drop_Suc [symmetric])

lemma take_two_updates:
  assumes "i + 1 < length xs"
  shows "take (i + 2) (xs[i := a, i + 1 := b]) = take i xs @ [a, b]"
proof -
  have "take (Suc (Suc i)) (xs[i := a, Suc i := b])
      = take (Suc i) (xs[i := a, Suc i := b]) @ [b]"
    using assms by (simp add: take_Suc_conv_app_nth)
  also have "take (Suc i) (xs[i := a, Suc i := b]) = take i xs @ [a]"
    using assms by (simp add: take_Suc_conv_app_nth)
  finally show ?thesis by simp
qed

lemma length_interleaveLoop:
  "length (interleaveLoop inputL inputR len result index inputIndex) = length result"
proof (induction inputL inputR len result index inputIndex rule: interleaveLoop.induct)
  case (1 inputL inputR len result index inputIndex)
  show ?case
  proof (cases "index < len")
    case True
    then show ?thesis
      using "1.IH" by (subst interleaveLoop.simps) simp
  next
    case False
    then show ?thesis by (subst interleaveLoop.simps) simp
  qed
qed

lemma interleaveLoop_equal:
  assumes "length inputL = n" "length inputR = n" "length result = 2 * n"
  shows "k \<le> n \<Longrightarrow>
         interleaveLoop inputL inputR (2 * n) result (2 * k) k
           = take (2 * k) result @ interleaved (drop k inputL) (drop k inputR)"
  using assms(3)
proof (induction "n - k" arbitrary: k result)
  case 0
  then have "k = n" by simp
  then show ?case using 0 assms by (subst interleaveLoop.simps) simp
next
  case (Suc d)
  then have k: "k < n" by simp
  define result' where
    "result' = result[2 * k := typedGet inputL k, 2 * k + 1 := typedGet inputR k]"
  have len: "length result' = 2 * n"
    using Suc.prems by (simp add: result'_def)
  have step: "interleaveLoop inputL inputR (2 * n) result (2 * k) k
      = interleaveLoop inputL inputR (2 * n) result' (2 * (k + 1)) (k + 1)"
    using k by (subst interleaveLoop.simps) (simp add: result'_def)
  have "interleaveLoop inputL inputR (2 * n) result' (2 * (k + 1)) (k + 1)
      = take (2 * (k + 1)) result' @ interleaved (drop (k + 1) inputL) (drop (k + 1) inputR)"
    using Suc.hyps(2) k len by (intro Suc.hyps(1)) auto
  moreover have "take (2 * (k + 1)) result' = take (2 * k) result @ [inputL ! k, inputR ! k]"
    using take_two_updates [of "2 * k" result "typedGet inputL k" "typedGet inputR k"]
      k Suc.prems assms
    by (simp add: result'_def typedGet_def)
  moreover have "interleaved (drop k inputL) (drop k inputR)
      = inputL ! k # inputR ! k # interleaved (drop (k + 1) inputL) (drop (k + 1) inputR)"
    using interleaved_drop [of k inputL inputR] k assms by simp
  ultimately show ?case using step by simp
qed

lemma interleave_equal:
  assumes "length inputL = length inputR"
  shows "interleave inputL inputR = interleaved inputL inputR"
proof -
  define n where "n = length inputL"
  have len: "length inputL + length inputR = 2 * n"
    using assms by (simp add: n_def)
  have "interleaveLoop inputL inputR (2 * n) (replicate (2 * n) (Val 0)) (2 * 0) 0
      = take (2 * 0) (replicate (2 * n) (Val 0)) @ interleaved (drop 0 inputL) (drop 0 inputR)"
    using assms by (intro interleaveLoop_equal) (simp_all add: n_def)
  then show ?thesis
    by (simp add: interleave_def Let_def len)
qed

section \<open>The header\<close>

lemma chars_ascii: "chars (ascii s) = s"
proof -
  have "char_of (unat (of_nat (of_char c mod 256) :: byte)) = c" for c :: char
  proof -
    have "(of_char c :: nat) < 256" by simp
    then have "unat (of_nat (of_char c mod 256) :: byte) = of_char c"
      by (simp add: unat_byte)
    then show ?thesis by simp
  qed
  then show ?thesis
    by (simp add: chars_def ascii_def comp_def map_idI)
qed

lemma leNat_le16: "leNat (le16 v) = v mod 65536"
proof -
  define u where "u = v mod 65536"
  have u: "u < 65536" by (simp add: u_def)
  then have "u div 256 < 256" by simp
  then have "unat (of_nat (u mod 256) :: byte) + 256 * unat (of_nat (u div 256) :: byte) = u"
    by (simp add: unat_byte)
  then show ?thesis
    by (simp add: leNat_def le16_def u_def)
qed

lemma leNat_le32: "leNat (le32 v) = v mod 4294967296"
proof -
  define u where "u = v mod 4294967296"
  define a where "a = u div 256"
  define b where "b = a div 256"
  define c where "c = b div 256"
  have u: "u < 4294967296" by (simp add: u_def)
  have b: "b = u div 65536" by (simp add: b_def a_def div_mult2_eq [symmetric])
  have c: "c = u div 16777216" by (simp add: c_def b div_mult2_eq [symmetric])
  have c256: "c < 256" using u by (simp add: c)
  have "u mod 256 + 256 * (a mod 256 + 256 * (b mod 256 + 256 * c)) = u"
    unfolding c_def b_def a_def by (simp only: mod_mult_div_eq)
  then have "unat (of_nat (u mod 256) :: byte) + 256 * (unat (of_nat (a mod 256) :: byte)
      + 256 * (unat (of_nat (b mod 256) :: byte) + 256 * unat (of_nat c :: byte))) = u"
    using c256 by (simp add: unat_byte)
  then show ?thesis
    unfolding leNat_def le32_def Let_def u_def [symmetric] a_def [symmetric] b [symmetric] c [symmetric]
    by simp
qed

lemma field_here: "length xs = n \<Longrightarrow> field (xs @ rest) 0 n = xs"
  by (simp add: field_def)

lemma field_skip: "length xs = k \<Longrightarrow> field (xs @ rest) (k + offset) n = field rest offset n"
  by (simp add: field_def)


lemma readHeader_wavHeader:
  "readHeader (wavHeader d f r c b @ p) =
     \<lparr>hdrChunkID = ''RIFF'',
      hdrChunkSize = (36 + d) mod 4294967296,
      hdrFormat = ''WAVE'',
      hdrSubchunk1ID = ''fmt '',
      hdrSubchunk1Size = 16,
      hdrAudioFormat = f mod 65536,
      hdrNumChannels = c mod 65536,
      hdrSampleRate = r mod 4294967296,
      hdrByteRate = (r * (c * 2)) mod 4294967296,
      hdrBlockAlign = (c * 2) mod 65536,
      hdrBitsPerSample = b mod 65536,
      hdrSubchunk2ID = ''data'',
      hdrSubchunk2Size = d mod 4294967296\<rparr>"
proof -
  define x13 where "x13 = le32 d @ p"
  define x12 where "x12 = ascii ''data'' @ x13"
  define x11 where "x11 = le16 b @ x12"
  define x10 where "x10 = le16 (c * 2) @ x11"
  define x9 where "x9 = le32 (r * (c * 2)) @ x10"
  define x8 where "x8 = le32 r @ x9"
  define x7 where "x7 = le16 c @ x8"
  define x6 where "x6 = le16 f @ x7"
  define x5 where "x5 = le32 16 @ x6"
  define x4 where "x4 = ascii ''fmt '' @ x5"
  define x3 where "x3 = ascii ''WAVE'' @ x4"
  define x2 where "x2 = le32 (36 + d) @ x3"
  define x1 where "x1 = ascii ''RIFF'' @ x2"
  have whole: "wavHeader d f r c b @ p = x1"
    by (simp add: wavHeader_def x1_def x2_def x3_def x4_def x5_def x6_def x7_def x8_def
        x9_def x10_def x11_def x12_def x13_def)
  have k1: "field x1 (4 + n) m = field x2 n m" for n m
    unfolding x1_def by (rule field_skip) simp
  have k2: "field x2 (4 + n) m = field x3 n m" for n m
    unfolding x2_def by (rule field_skip) simp
  have k3: "field x3 (4 + n) m = field x4 n m" for n m
    unfolding x3_def by (rule field_skip) simp
  have k4: "field x4 (4 + n) m = field x5 n m" for n m
    unfolding x4_def by (rule field_skip) simp
  have k5: "field x5 (4 + n) m = field x6 n m" for n m
    unfolding x5_def by (rule field_skip) simp
  have k6: "field x6 (2 + n) m = field x7 n m" for n m
    unfolding x6_def by (rule field_skip) simp
  have k7: "field x7 (2 + n) m = field x8 n m" for n m
    unfolding x7_def by (rule field_skip) simp
  have k8: "field x8 (4 + n) m = field x9 n m" for n m
    unfolding x8_def by (rule field_skip) simp
  have k9: "field x9 (4 + n) m = field x10 n m" for n m
    unfolding x9_def by (rule field_skip) simp
  have k10: "field x10 (2 + n) m = field x11 n m" for n m
    unfolding x10_def by (rule field_skip) simp
  have k11: "field x11 (2 + n) m = field x12 n m" for n m
    unfolding x11_def by (rule field_skip) simp
  have k12: "field x12 (4 + n) m = field x13 n m" for n m
    unfolding x12_def by (rule field_skip) simp
  have f0: "field x1 0 4 = ascii ''RIFF''"
    unfolding x1_def by (rule field_here) simp
  have f4: "field x1 4 4 = le32 (36 + d)"
    using k1 [of 0 4] unfolding x2_def by (simp add: field_here)
  have f8: "field x1 8 4 = ascii ''WAVE''"
    using k1 [of 4 4] k2 [of 0 4] unfolding x3_def by (simp add: field_here)
  have f12: "field x1 12 4 = ascii ''fmt ''"
    using k1 [of 8 4] k2 [of 4 4] k3 [of 0 4] unfolding x4_def by (simp add: field_here)
  have f16: "field x1 16 4 = le32 16"
    using k1 [of 12 4] k2 [of 8 4] k3 [of 4 4] k4 [of 0 4] unfolding x5_def
    by (simp add: field_here)
  have f20: "field x1 20 2 = le16 f"
    using k1 [of 16 2] k2 [of 12 2] k3 [of 8 2] k4 [of 4 2] k5 [of 0 2] unfolding x6_def
    by (simp add: field_here)
  have f22: "field x1 22 2 = le16 c"
    using k1 [of 18 2] k2 [of 14 2] k3 [of 10 2] k4 [of 6 2] k5 [of 2 2] k6 [of 0 2]
    unfolding x7_def by (simp add: field_here)
  have f24: "field x1 24 4 = le32 r"
    using k1 [of 20 4] k2 [of 16 4] k3 [of 12 4] k4 [of 8 4] k5 [of 4 4] k6 [of 2 4]
      k7 [of 0 4]
    unfolding x8_def by (simp add: field_here)
  have f28: "field x1 28 4 = le32 (r * (c * 2))"
    using k1 [of 24 4] k2 [of 20 4] k3 [of 16 4] k4 [of 12 4] k5 [of 8 4] k6 [of 6 4]
      k7 [of 4 4] k8 [of 0 4]
    unfolding x9_def by (simp add: field_here)
  have f32: "field x1 32 2 = le16 (c * 2)"
    using k1 [of 28 2] k2 [of 24 2] k3 [of 20 2] k4 [of 16 2] k5 [of 12 2] k6 [of 10 2]
      k7 [of 8 2] k8 [of 4 2] k9 [of 0 2]
    unfolding x10_def by (simp add: field_here)
  have f34: "field x1 34 2 = le16 b"
    using k1 [of 30 2] k2 [of 26 2] k3 [of 22 2] k4 [of 18 2] k5 [of 14 2] k6 [of 12 2]
      k7 [of 10 2] k8 [of 6 2] k9 [of 2 2] k10 [of 0 2]
    unfolding x11_def by (simp add: field_here)
  have f36: "field x1 36 4 = ascii ''data''"
    using k1 [of 32 4] k2 [of 28 4] k3 [of 24 4] k4 [of 20 4] k5 [of 16 4] k6 [of 14 4]
      k7 [of 12 4] k8 [of 8 4] k9 [of 4 4] k10 [of 2 4] k11 [of 0 4]
    unfolding x12_def by (simp add: field_here)
  have f40: "field x1 40 4 = le32 d"
    using k1 [of 36 4] k2 [of 32 4] k3 [of 28 4] k4 [of 24 4] k5 [of 20 4] k6 [of 18 4]
      k7 [of 16 4] k8 [of 12 4] k9 [of 8 4] k10 [of 6 4] k11 [of 4 4] k12 [of 0 4]
    unfolding x13_def by (simp add: field_here)
  show ?thesis
    unfolding whole readHeader_def f0 f4 f8 f12 f16 f20 f22 f24 f28 f32 f34 f36 f40
    by (simp add: chars_ascii leNat_le16 leNat_le32)
qed

lemma audioBufferToWav_stereo:
  "audioBufferToWav \<lparr>sampleRate = rate, channels = [inputL, inputR]\<rparr>
     = encodeWAV (interleave inputL inputR) 1 rate 2 16"
  by (simp add: audioBufferToWav_def numberOfChannels_def getChannelData_def numeral_2_eq_2)

lemma audioBufferToWav_other:
  "numberOfChannels buffer \<noteq> 2 \<Longrightarrow> 1 \<le> numberOfChannels buffer \<Longrightarrow>
   audioBufferToWav buffer
     = encodeWAV (hd (channels buffer)) 1 (sampleRate buffer) (numberOfChannels buffer) 16"
  by (cases "channels buffer")
    (simp_all add: audioBufferToWav_def numberOfChannels_def getChannelData_def)

lemma encodeWAV_payload:
  "\<exists>blob. encodeWAV samples f r c 16 = Inr blob
      \<and> pcmPayload (blob_bytes blob) = map pcm16Number samples"
  by (simp add: encodeWAV_bytes pcmPayload_encoded)

section \<open>The loops of the decoder\<close>

lemma length_int16Elements:
  "2 * n \<le> length bs \<Longrightarrow> length (int16Elements bs n) = n"
proof (induction bs n rule: int16Elements.induct)
  case (1 lo hi buffer n)
  then show ?case by simp
qed simp_all

lemma nth_int16Elements:
  "2 * n \<le> length bs \<Longrightarrow> i < n \<Longrightarrow>
   int16Elements bs n ! i = int16At (bs ! (2 * i)) (bs ! (2 * i + 1))"
proof (induction bs n arbitrary: i rule: int16Elements.induct)
  case (1 lo hi buffer n)
  show ?case
  proof (cases i)
    case 0
    then show ?thesis by simp
  next
    case (Suc j)
    then show ?thesis using "1.prems" "1.IH" [of j] by simp
  qed
qed simp_all

lemma int16At_range: "- 32768 \<le> int16At lo hi \<and> int16At lo hi \<le> 32767"
proof -
  define u where "u = int (unat lo) + 256 * int (unat hi)"
  have "unat lo < 256" "unat hi < 256"
    using unsigned_less [of lo, where 'a = nat] unsigned_less [of hi, where 'a = nat]
    by simp_all
  then have "0 \<le> u" "u \<le> 65535"
    unfolding u_def by linarith+
  then show ?thesis
    unfolding int16At_def Let_def u_def [symmetric] by auto
qed

lemma trunc_of_nat_div: "trunc (of_nat n / of_nat c) = int (n div c)"
proof -
  have "\<not> (of_nat n / of_nat c :: rat) < 0" by (simp add: not_less)
  then have "trunc (of_nat n / of_nat c) = \<lfloor>(of_nat n / of_nat c) :: rat\<rfloor>"
    by (simp add: trunc_def)
  then show ?thesis by (simp add: floor_divide_of_nat_eq)
qed

lemma half_length: "nat (trunc (of_nat n / 2)) = n div 2"
  using trunc_of_nat_div [of n 2] by simp

lemma Int16Array_data:
  "Int16Array data (nat (trunc (of_nat (length data) / 2)))
     = Inr (int16Elements data (length data div 2))"
  by (simp add: half_length Int16Array_def)

lemma length_fillFrames:
  "length (fillFrames d c fc ch cd i) = length cd"
proof (induction d c fc ch cd i rule: fillFrames.induct)
  case (1 d c fc ch cd i)
  show ?case
  proof (cases "of_nat i < fc")
    case True
    then show ?thesis using "1.IH" by (subst fillFrames.simps) simp
  next
    case False
    then show ?thesis by (subst fillFrames.simps) simp
  qed
qed

lemma nth_fillFrames:
  "j < length cd \<Longrightarrow>
   fillFrames d c fc ch cd i ! j
     = (if i \<le> j \<and> of_nat j < fc then js_div (int16Get d (j * c + ch)) 32768 else cd ! j)"
proof (induction d c fc ch cd i rule: fillFrames.induct)
  case (1 d c fc ch cd i)
  show ?case
  proof (cases "of_nat i < fc")
    case True
    have "fillFrames d c fc ch cd i ! j
        = fillFrames d c fc ch (cd[i := js_div (int16Get d (i * c + ch)) 32768]) (i + 1) ! j"
      using True by (subst fillFrames.simps) simp
    also have "\<dots> = (if i + 1 \<le> j \<and> of_nat j < fc
                      then js_div (int16Get d (j * c + ch)) 32768
                      else cd[i := js_div (int16Get d (i * c + ch)) 32768] ! j)"
      using True "1.prems" by (intro "1.IH") simp_all
    also have "\<dots> = (if i \<le> j \<and> of_nat j < fc then js_div (int16Get d (j * c + ch)) 32768
                      else cd ! j)"
      using True "1.prems" by (cases "i = j") auto
    finally show ?thesis .
  next
    case False
    have "\<not> (i \<le> j \<and> of_nat j < fc)"
    proof
      assume a: "i \<le> j \<and> of_nat j < fc"
      then have "(of_nat i :: rat) \<le> of_nat j" by simp
      then show False using a False by linarith
    qed
    then have neg: "(i \<le> j \<and> of_nat j < fc) = False" by simp
    have "fillFrames d c fc ch cd i = cd"
      using False by (subst fillFrames.simps) simp
    then show ?thesis by (simp only: neg if_False)
  qed
qed

lemma fillFrames_zeros:
  assumes "0 < c" "ch < c"
  shows "fillFrames d c (of_nat (length d) / of_nat c) ch
           (replicate (length d div c) (Val 0)) 0
         = map (\<lambda>i. Val (of_int (d ! (i * c + ch)) / 32768)) [0..<length d div c]"
proof (rule nth_equalityI)
  show "length (fillFrames d c (of_nat (length d) / of_nat c) ch
           (replicate (length d div c) (Val 0)) 0)
      = length (map (\<lambda>i. Val (of_int (d ! (i * c + ch)) / 32768)) [0..<length d div c])"
    by (simp add: length_fillFrames)
next
  fix j
  assume "j < length (fillFrames d c (of_nat (length d) / of_nat c) ch
           (replicate (length d div c) (Val 0)) 0)"
  then have j: "j < length d div c" by (simp add: length_fillFrames)
  then have "Suc j * c \<le> length d div c * c"
    by (intro mult_le_mono1) simp
  also have "\<dots> \<le> length d" by simp
  finally have le: "j * c + c \<le> length d" by simp
  then have inrange: "j * c + ch < length d" using assms by linarith
  have "j * c < length d" using le assms by linarith
  then have "(of_nat (j * c) :: rat) < of_nat (length d)" by (simp only: of_nat_less_iff)
  then have "(of_nat j :: rat) * of_nat c < of_nat (length d)" by simp
  then have less: "(of_nat j :: rat) < of_nat (length d) / of_nat c"
    using assms by (simp add: pos_less_divide_eq)
  have "fillFrames d c (of_nat (length d) / of_nat c) ch
           (replicate (length d div c) (Val 0)) 0 ! j
      = js_div (int16Get d (j * c + ch)) 32768"
    using j less by (simp add: nth_fillFrames)
  also have "\<dots> = Val (of_int (d ! (j * c + ch)) / 32768)"
    using inrange by (simp add: int16Get_def)
  finally show "fillFrames d c (of_nat (length d) / of_nat c) ch
           (replicate (length d div c) (Val 0)) 0 ! j
      = map (\<lambda>i. Val (of_int (d ! (i * c + ch)) / 32768)) [0..<length d div c] ! j"
    using j by simp
qed

lemma fillChannels_all:
  "length (channels buffer) = n \<Longrightarrow> k \<le> n \<Longrightarrow>
   fillChannels d n fc buffer k
     = Inr (buffer\<lparr>channels := take k (channels buffer)
              @ map (\<lambda>ch. fillFrames d n fc ch (channels buffer ! ch) 0) [k..<n]\<rparr>)"
proof (induction "n - k" arbitrary: k buffer)
  case 0
  then have "k = n" by simp
  then show ?case using 0 by (subst fillChannels.simps) simp
next
  case (Suc m)
  then have k: "k < n" by simp
  define buffer' where
    "buffer' = buffer\<lparr>channels := (channels buffer)
                 [k := fillFrames d n fc k (channels buffer ! k) 0]\<rparr>"
  have len: "length (channels buffer') = n"
    using Suc.prems by (simp add: buffer'_def)
  have step: "fillChannels d n fc buffer k = fillChannels d n fc buffer' (k + 1)"
    using k Suc.prems
    by (subst fillChannels.simps) (simp add: getChannelData_def numberOfChannels_def buffer'_def)
  have "fillChannels d n fc buffer' (k + 1)
      = Inr (buffer'\<lparr>channels := take (k + 1) (channels buffer')
              @ map (\<lambda>ch. fillFrames d n fc ch (channels buffer' ! ch) 0) [k + 1..<n]\<rparr>)"
    using Suc.hyps(2) k len by (intro Suc.hyps(1)) auto
  moreover have "take (k + 1) (channels buffer')
      = take k (channels buffer) @ [fillFrames d n fc k (channels buffer ! k) 0]"
    using k Suc.prems by (simp add: buffer'_def take_Suc_conv_app_nth)
  moreover have "map (\<lambda>ch. fillFrames d n fc ch (channels buffer' ! ch) 0) [k + 1..<n]
      = map (\<lambda>ch. fillFrames d n fc ch (channels buffer ! ch) 0) [k + 1..<n]"
    by (rule map_cong) (auto simp: buffer'_def)
  moreover have "[k..<n] = k # [k + 1..<n]"
    using k by (simp add: upt_conv_Cons)
  ultimately show ?case
    using step by (simp add: buffer'_def)
qed

lemma toUnsignedLong_frames:
  assumes "n div c < 4294967296"
  shows "toUnsignedLong (of_nat n / of_nat c) = n div c"
proof -
  have "int (n div c) mod 4294967296 = int (n div c)"
    using assms by (intro mod_pos_pos_trivial) auto
  then show ?thesis
    unfolding toUnsignedLong_def trunc_of_nat_div by simp
qed

lemma fillChannels_created:
  assumes "0 < c"
  shows "fillChannels d c (of_nat (length d) / of_nat c)
           \<lparr>sampleRate = rate,
            channels = replicate c (replicate (length d div c) (Val 0))\<rparr> 0
         = Inr \<lparr>sampleRate = rate,
                channels = map (\<lambda>ch. map (\<lambda>i. Val (of_int (d ! (i * c + ch)) / 32768))
                                      [0..<length d div c]) [0..<c]\<rparr>"
proof -
  let ?b = "\<lparr>sampleRate = rate, channels = replicate c (replicate (length d div c) (Val 0))\<rparr>"
  have "map (\<lambda>ch. fillFrames d c (of_nat (length d) / of_nat c) ch (channels ?b ! ch) 0) [0..<c]
      = map (\<lambda>ch. map (\<lambda>i. Val (of_int (d ! (i * c + ch)) / 32768)) [0..<length d div c]) [0..<c]"
    using assms by (intro map_cong) (simp_all add: fillFrames_zeros)
  then show ?thesis
    using fillChannels_all [of ?b c 0 d "of_nat (length d) / of_nat c"] by simp
qed

lemma decodeAudioData_created:
  assumes "0 < numChannels"
    and "length data div 2 div numChannels < 4294967296"
    and "ctx numChannels (length data div 2 div numChannels) rate"
  shows "decodeAudioData data ctx rate numChannels = Inr (decoded data rate numChannels)"
proof -
  define d where "d = int16Elements data (length data div 2)"
  have len: "length d = length data div 2"
    by (simp add: d_def length_int16Elements)
  have nth: "d ! k = int16At (data ! (2 * k)) (data ! (2 * k + 1))" if "k < length data div 2" for k
    using that by (simp add: d_def nth_int16Elements)
  have ul: "toUnsignedLong (of_nat (length data div 2) / of_nat numChannels)
      = length data div 2 div numChannels"
    using assms(2) by (rule toUnsignedLong_frames)
  have cb: "createBuffer ctx numChannels (of_nat (length d) / of_nat numChannels) rate
      = Inr \<lparr>sampleRate = rate,
             channels = replicate numChannels (replicate (length d div numChannels) (Val 0))\<rparr>"
    using assms(3) by (simp add: createBuffer_def ul len)
  have "map (\<lambda>ch. map (\<lambda>i. Val (of_int (d ! (i * numChannels + ch)) / 32768))
               [0..<length d div numChannels]) [0..<numChannels]
      = channels (decoded data rate numChannels)"
  proof -
    have "d ! (i * numChannels + ch)
        = int16At (data ! (2 * (i * numChannels + ch))) (data ! (2 * (i * numChannels + ch) + 1))"
      if "ch < numChannels" "i < length d div numChannels" for ch i
    proof -
      have "Suc i * numChannels \<le> length d div numChannels * numChannels"
        using that(2) by (intro mult_le_mono1) simp
      also have "\<dots> \<le> length d" by simp
      finally have "i * numChannels + ch < length d" using that(1) by simp
      then show ?thesis using nth len by simp
    qed
    then show ?thesis
      by (simp add: decoded_def Let_def len)
  qed
  then have "Inr \<lparr>sampleRate = rate,
      channels = map (\<lambda>ch. map (\<lambda>i. Val (of_int (d ! (i * numChannels + ch)) / 32768))
               [0..<length d div numChannels]) [0..<numChannels]\<rparr>
     = (Inr (decoded data rate numChannels) :: error + AudioBuffer)"
    by (simp add: decoded_def Let_def)
  then show ?thesis
    using assms(1) cb fillChannels_created [OF assms(1), of d rate]
    by (simp add: decodeAudioData_def Int16Array_data d_def [symmetric] Let_def)
qed

lemma decodeAudioData_outcomes:
  "decodeAudioData data ctx rate numChannels = Inl AllocationError
   \<or> (\<exists>buffer. decodeAudioData data ctx rate numChannels = Inr buffer)"
proof -
  define d where "d = int16Elements data (length data div 2)"
  define fc :: rat where
    "fc = (if numChannels = 0 then 0 else of_nat (length d) / of_nat numChannels)"
  show ?thesis
  proof (cases "ctx numChannels (toUnsignedLong fc) rate")
    case True
    let ?b = "\<lparr>sampleRate = rate,
               channels = replicate numChannels (replicate (toUnsignedLong fc) (Val 0))\<rparr>"
    have "createBuffer ctx numChannels fc rate = Inr ?b"
      using True by (simp add: createBuffer_def)
    moreover have "\<exists>buffer. fillChannels d numChannels fc ?b 0 = Inr buffer"
      using fillChannels_all [of ?b numChannels 0 d fc] by simp
    ultimately show ?thesis
      by (auto simp: decodeAudioData_def Int16Array_data d_def [symmetric] Let_def fc_def)
  next
    case False
    then have "createBuffer ctx numChannels fc rate = Inl AllocationError"
      by (simp add: createBuffer_def)
    then show ?thesis
      by (simp add: decodeAudioData_def Int16Array_data d_def [symmetric] Let_def fc_def)
  qed
qed

lemma decodeAudioData_rejected:
  assumes "0 < numChannels"
    and "length data div 2 div numChannels < 4294967296"
    and "\<not> ctx numChannels (length data div 2 div numChannels) rate"
  shows "decodeAudioData data ctx rate numChannels = Inl AllocationError"
proof -
  define d where "d = int16Elements data (length data div 2)"
  have len: "length d = length data div 2"
    by (simp add: d_def length_int16Elements)
  have ul: "toUnsignedLong (of_nat (length data div 2) / of_nat numChannels)
      = length data div 2 div numChannels"
    using assms(2) by (rule toUnsignedLong_frames)
  have "createBuffer ctx numChannels (of_nat (length d) / of_nat numChannels) rate
      = Inl AllocationError"
    using assms(3) by (simp add: createBuffer_def ul len)
  then show ?thesis
    using assms(1)
    by (simp add: decodeAudioData_def Int16Array_data d_def [symmetric] Let_def)
qed

lemma decoded_range:
  "list_all (list_all inUnitRange) (channels (decoded data rate numChannels))"
proof -
  have "inUnitRange (Val (of_int (int16At lo hi) / 32768))" for lo hi
  proof -
    have "(of_int (- 32768) :: rat) \<le> of_int (int16At lo hi)"
      "(of_int (int16At lo hi) :: rat) \<le> of_int 32767"
      using int16At_range [of lo hi] by (simp_all only: of_int_le_iff)
    then show ?thesis by (simp add: inUnitRange_def)
  qed
  then show ?thesis
    by (simp add: decoded_def Let_def list_all_iff)
qed

lemma decoded_example:
  "decoded [0, 128, 255, 127, 1] 24000 1
     = \<lparr>sampleRate = 24000, channels = [[Val (- 1), Val (32767 / 32768)]]\<rparr>"
  by (simp add: decoded_def Let_def int16At_def upt_rec)

section \<open>The sample conversion of the encoder\<close>

text \<open>
  C5. \<open>audioBufferToWav\<close> writes each sample as the 16-bit integer that the rule of the
  specification gives: the sample clamped to \<open>[-1, 1]\<close> (an infinity clamps to the bound, and
  \<open>NaN\<close> is written as 0), times 32767 if the clamped value is at least 0 and times 32768
  if it is below, with the fraction dropped. The buffer with the left channel
  \<open>[0.5, -0.5]\<close> and the right channel \<open>[0.25, -0.25]\<close> gives the payload
  \<open>[16383, 8191, -16384, -8192]\<close>, in that order.
\<close>

theorem floatTo16BitPCM_scale_rule:
  "(\<exists>blob. audioBufferToWav \<lparr>sampleRate = rate, channels = [samples]\<rparr> = Inr blob
       \<and> pcmPayload (blob_bytes blob) = map pcm16Number samples)
   \<and> (\<exists>blob. audioBufferToWav \<lparr>sampleRate = rate,
                  channels = [[Val (1 / 2), Val (- (1 / 2))], [Val (1 / 4), Val (- (1 / 4))]]\<rparr>
              = Inr blob
       \<and> pcmPayload (blob_bytes blob) = [16383, 8191, - 16384, - 8192])"
proof
  have "audioBufferToWav \<lparr>sampleRate = rate, channels = [samples]\<rparr>
      = encodeWAV samples 1 rate 1 16"
    using audioBufferToWav_other [of "\<lparr>sampleRate = rate, channels = [samples]\<rparr>"]
    by (simp add: numberOfChannels_def)
  then show "\<exists>blob. audioBufferToWav \<lparr>sampleRate = rate, channels = [samples]\<rparr> = Inr blob
       \<and> pcmPayload (blob_bytes blob) = map pcm16Number samples"
    using encodeWAV_payload [of samples 1 rate 1] by simp
next
  let ?xs = "[Val (1 / 2), Val (1 / 4), Val (- (1 / 2)), Val (- (1 / 4))]"
  have i: "interleave [Val (1 / 2), Val (- (1 / 2))] [Val (1 / 4), Val (- (1 / 4))] = ?xs"
    by (simp add: interleave_equal)
  have "\<lfloor>32767 / 2 :: rat\<rfloor> = 16383" "\<lfloor>32767 / 4 :: rat\<rfloor> = 8191"
    by (rule floor_unique; simp)+
  then have t: "trunc (32767 / 2) = 16383" "trunc (32767 / 4) = 8191"
    by (simp_all add: trunc_def)
  have v: "map pcm16Number ?xs = [16383, 8191, - 16384, - 8192]"
    by (simp add: pcm16Number_def pcm16_def t) (simp add: trunc_def)
  have e: "audioBufferToWav \<lparr>sampleRate = rate,
                  channels = [[Val (1 / 2), Val (- (1 / 2))], [Val (1 / 4), Val (- (1 / 4))]]\<rparr>
      = encodeWAV ?xs 1 rate 2 16"
    by (simp only: audioBufferToWav_stereo i)
  show "\<exists>blob. audioBufferToWav \<lparr>sampleRate = rate,
                  channels = [[Val (1 / 2), Val (- (1 / 2))], [Val (1 / 4), Val (- (1 / 4))]]\<rparr>
              = Inr blob
       \<and> pcmPayload (blob_bytes blob) = [16383, 8191, - 16384, - 8192]"
    using encodeWAV_payload [of ?xs 1 rate 2] unfolding e v .
qed

section \<open>The format probe: results\<close>

lemma getSupportedFormats_Some:
  "getSupportedFormats (Some isTypeSupported)
     = wavFormat # map toFormat (filter (\<lambda>c. isTypeSupported (fst c)) candidates)"
  by (simp add: getSupportedFormats_def candidates_def addCandidate_def wavFormat_def toFormat_def)

lemma getSupportedFormats_None: "getSupportedFormats None = [wavFormat]"
  by (simp add: getSupportedFormats_def wavFormat_def)

lemma mimeType_toFormat: "mimeType (toFormat c) = fst c"
  by (cases c) (simp add: toFormat_def)

lemma distinct_candidates: "distinct (''audio/wav'' # map fst candidates)"
  by (simp add: candidates_def)

lemma distinct_getSupportedFormats: "distinct (map mimeType (getSupportedFormats platform))"
proof (cases platform)
  case None
  then show ?thesis by (simp add: getSupportedFormats_None)
next
  case (Some isTypeSupported)
  have "map mimeType (map toFormat (filter (\<lambda>c. isTypeSupported (fst c)) candidates))
      = filter isTypeSupported (map fst candidates)"
    by (simp add: filter_map comp_def mimeType_toFormat)
  moreover have "distinct (''audio/wav'' # filter isTypeSupported (map fst candidates))"
    using distinct_candidates by auto
  ultimately show ?thesis
    using Some by (simp add: getSupportedFormats_Some wavFormat_def)
qed

lemma addCandidate_present:
  "mime \<in> set (map mimeType formats) \<Longrightarrow>
   addCandidate isTypeSupported formats (mime, e, l) = formats"
proof -
  assume "mime \<in> set (map mimeType formats)"
  then have "find (\<lambda>f. mimeType f = mime) formats \<noteq> None"
    by (auto simp: find_None_iff)
  then show ?thesis by (auto simp: addCandidate_def)
qed

lemma getSupportedFormats_listed:
  "getSupportedFormats (Some isTypeSupported)
     = wavFormat # filter (\<lambda>f. isTypeSupported (mimeType f))
         [\<lparr>label = ''MP4 (AAC)'', mimeType = ''audio/mp4'', ext = ''mp4''\<rparr>,
          \<lparr>label = ''WebM (Opus)'', mimeType = ''audio/webm;codecs=opus'', ext = ''webm''\<rparr>,
          \<lparr>label = ''WebM'', mimeType = ''audio/webm'', ext = ''webm''\<rparr>,
          \<lparr>label = ''Ogg (Vorbis)'', mimeType = ''audio/ogg'', ext = ''ogg''\<rparr>]"
  by (simp add: getSupportedFormats_Some candidates_def toFormat_def)

text \<open>
  C9. With a \<open>MediaRecorder\<close>, the result is the WAV descriptor followed by those of the
  four descriptors MP4 (AAC), WebM (Opus), WebM and Ogg (Vorbis), in this order, whose
  MIME type the platform supports. The first entry is the WAV descriptor whatever the
  platform is, and no MIME type occurs twice: a candidate whose MIME type is already
  among the formats is not added. The result depends on the platform only through its
  answers for the four MIME types \<open>audio/mp4\<close>, \<open>audio/webm;codecs=opus\<close>, \<open>audio/webm\<close> and
  \<open>audio/ogg\<close>, so that two calls on the same platform give the same sequence.
\<close>

theorem getSupportedFormats_sequence:
  "getSupportedFormats (Some isTypeSupported)
     = \<lparr>label = ''WAV (Uncompressed)'', mimeType = ''audio/wav'', ext = ''wav''\<rparr>
       # filter (\<lambda>f. isTypeSupported (mimeType f))
         [\<lparr>label = ''MP4 (AAC)'', mimeType = ''audio/mp4'', ext = ''mp4''\<rparr>,
          \<lparr>label = ''WebM (Opus)'', mimeType = ''audio/webm;codecs=opus'', ext = ''webm''\<rparr>,
          \<lparr>label = ''WebM'', mimeType = ''audio/webm'', ext = ''webm''\<rparr>,
          \<lparr>label = ''Ogg (Vorbis)'', mimeType = ''audio/ogg'', ext = ''ogg''\<rparr>]
   \<and> hd (getSupportedFormats platform)
       = \<lparr>label = ''WAV (Uncompressed)'', mimeType = ''audio/wav'', ext = ''wav''\<rparr>
   \<and> distinct (map mimeType (getSupportedFormats platform))
   \<and> (mime \<in> set (map mimeType formats) \<longrightarrow>
        addCandidate isTypeSupported formats (mime, e, l) = formats)
   \<and> (p ''audio/mp4'' = q ''audio/mp4''
        \<and> p ''audio/webm;codecs=opus'' = q ''audio/webm;codecs=opus''
        \<and> p ''audio/webm'' = q ''audio/webm''
        \<and> p ''audio/ogg'' = q ''audio/ogg'' \<longrightarrow>
        getSupportedFormats (Some p) = getSupportedFormats (Some q))"
proof (intro conjI impI)
  show "getSupportedFormats (Some isTypeSupported)
     = \<lparr>label = ''WAV (Uncompressed)'', mimeType = ''audio/wav'', ext = ''wav''\<rparr>
       # filter (\<lambda>f. isTypeSupported (mimeType f))
         [\<lparr>label = ''MP4 (AAC)'', mimeType = ''audio/mp4'', ext = ''mp4''\<rparr>,
          \<lparr>label = ''WebM (Opus)'', mimeType = ''audio/webm;codecs=opus'', ext = ''webm''\<rparr>,
          \<lparr>label = ''WebM'', mimeType = ''audio/webm'', ext = ''webm''\<rparr>,
          \<lparr>label = ''Ogg (Vorbis)'', mimeType = ''audio/ogg'', ext = ''ogg''\<rparr>]"
    unfolding getSupportedFormats_listed wavFormat_def ..
  show "hd (getSupportedFormats platform)
       = \<lparr>label = ''WAV (Uncompressed)'', mimeType = ''audio/wav'', ext = ''wav''\<rparr>"
    by (cases platform)
      (simp_all add: getSupportedFormats_None getSupportedFormats_Some wavFormat_def)
  show "distinct (map mimeType (getSupportedFormats platform))"
    by (rule distinct_getSupportedFormats)
  show "addCandidate isTypeSupported formats (mime, e, l) = formats"
    if "mime \<in> set (map mimeType formats)"
    using that by (rule addCandidate_present)
  show "getSupportedFormats (Some p) = getSupportedFormats (Some q)"
    if "p ''audio/mp4'' = q ''audio/mp4''
        \<and> p ''audio/webm;codecs=opus'' = q ''audio/webm;codecs=opus''
        \<and> p ''audio/webm'' = q ''audio/webm''
        \<and> p ''audio/ogg'' = q ''audio/ogg''"
  proof -
    have "filter (\<lambda>f. p (mimeType f))
         [\<lparr>label = ''MP4 (AAC)'', mimeType = ''audio/mp4'', ext = ''mp4''\<rparr>,
          \<lparr>label = ''WebM (Opus)'', mimeType = ''audio/webm;codecs=opus'', ext = ''webm''\<rparr>,
          \<lparr>label = ''WebM'', mimeType = ''audio/webm'', ext = ''webm''\<rparr>,
          \<lparr>label = ''Ogg (Vorbis)'', mimeType = ''audio/ogg'', ext = ''ogg''\<rparr>]
      = filter (\<lambda>f. q (mimeType f))
         [\<lparr>label = ''MP4 (AAC)'', mimeType = ''audio/mp4'', ext = ''mp4''\<rparr>,
          \<lparr>label = ''WebM (Opus)'', mimeType = ''audio/webm;codecs=opus'', ext = ''webm''\<rparr>,
          \<lparr>label = ''WebM'', mimeType = ''audio/webm'', ext = ''webm''\<rparr>,
          \<lparr>label = ''Ogg (Vorbis)'', mimeType = ''audio/ogg'', ext = ''ogg''\<rparr>]"
    proof (rule filter_cong [OF refl])
      fix f :: AudioFormat
      assume "f \<in> set
         [\<lparr>label = ''MP4 (AAC)'', mimeType = ''audio/mp4'', ext = ''mp4''\<rparr>,
          \<lparr>label = ''WebM (Opus)'', mimeType = ''audio/webm;codecs=opus'', ext = ''webm''\<rparr>,
          \<lparr>label = ''WebM'', mimeType = ''audio/webm'', ext = ''webm''\<rparr>,
          \<lparr>label = ''Ogg (Vorbis)'', mimeType = ''audio/ogg'', ext = ''ogg''\<rparr>]"
      then have "mimeType f = ''audio/mp4'' \<or> mimeType f = ''audio/webm;codecs=opus''
          \<or> mimeType f = ''audio/webm'' \<or> mimeType f = ''audio/ogg''"
        by auto
      then show "p (mimeType f) = q (mimeType f)"
        using that by metis
    qed
    then show ?thesis
      by (simp only: getSupportedFormats_listed)
  qed
qed

theorem getSupportedFormats_sequence_witness:
  "getSupportedFormats (Some (\<lambda>m. True))
     = [\<lparr>label = ''WAV (Uncompressed)'', mimeType = ''audio/wav'', ext = ''wav''\<rparr>,
        \<lparr>label = ''MP4 (AAC)'', mimeType = ''audio/mp4'', ext = ''mp4''\<rparr>,
        \<lparr>label = ''WebM (Opus)'', mimeType = ''audio/webm;codecs=opus'', ext = ''webm''\<rparr>,
        \<lparr>label = ''WebM'', mimeType = ''audio/webm'', ext = ''webm''\<rparr>,
        \<lparr>label = ''Ogg (Vorbis)'', mimeType = ''audio/ogg'', ext = ''ogg''\<rparr>]
   \<and> ''audio/wav'' \<in> set (map mimeType [wavFormat])
   \<and> addCandidate (\<lambda>m. True) [wavFormat] (''audio/wav'', ''wav'', ''WAV again'') = [wavFormat]
   \<and> getSupportedFormats (Some (\<lambda>m. m = ''audio/webm'' \<or> m = ''audio/ogg''))
       = getSupportedFormats
           (Some (\<lambda>m. m = ''audio/webm'' \<or> m = ''audio/ogg'' \<or> m = ''audio/flac''))
   \<and> getSupportedFormats (Some (\<lambda>m. m = ''audio/webm'' \<or> m = ''audio/ogg''))
       = [\<lparr>label = ''WAV (Uncompressed)'', mimeType = ''audio/wav'', ext = ''wav''\<rparr>,
          \<lparr>label = ''WebM'', mimeType = ''audio/webm'', ext = ''webm''\<rparr>,
          \<lparr>label = ''Ogg (Vorbis)'', mimeType = ''audio/ogg'', ext = ''ogg''\<rparr>]"
proof (intro conjI)
  note all = getSupportedFormats_sequence [where isTypeSupported = "\<lambda>m. True"
      and mime = "''audio/wav''" and formats = "[wavFormat]" and e = "''wav''"
      and l = "''WAV again''"
      and p = "\<lambda>m. m = ''audio/webm'' \<or> m = ''audio/ogg''"
      and q = "\<lambda>m. m = ''audio/webm'' \<or> m = ''audio/ogg'' \<or> m = ''audio/flac''"]
  note two = getSupportedFormats_sequence
      [where isTypeSupported = "\<lambda>m. m = ''audio/webm'' \<or> m = ''audio/ogg''"]
  show a: "''audio/wav'' \<in> set (map mimeType [wavFormat])"
    by (simp add: wavFormat_def)
  show "getSupportedFormats (Some (\<lambda>m. True))
     = [\<lparr>label = ''WAV (Uncompressed)'', mimeType = ''audio/wav'', ext = ''wav''\<rparr>,
        \<lparr>label = ''MP4 (AAC)'', mimeType = ''audio/mp4'', ext = ''mp4''\<rparr>,
        \<lparr>label = ''WebM (Opus)'', mimeType = ''audio/webm;codecs=opus'', ext = ''webm''\<rparr>,
        \<lparr>label = ''WebM'', mimeType = ''audio/webm'', ext = ''webm''\<rparr>,
        \<lparr>label = ''Ogg (Vorbis)'', mimeType = ''audio/ogg'', ext = ''ogg''\<rparr>]"
    using all [THEN conjunct1] by (simp only: filter.simps if_True)
  show "addCandidate (\<lambda>m. True) [wavFormat] (''audio/wav'', ''wav'', ''WAV again'') = [wavFormat]"
    using all [THEN conjunct2, THEN conjunct2, THEN conjunct2, THEN conjunct1] a by (rule mp)
  have same: "(''audio/mp4'' = ''audio/webm'' \<or> ''audio/mp4'' = ''audio/ogg'')
        = (''audio/mp4'' = ''audio/webm'' \<or> ''audio/mp4'' = ''audio/ogg''
           \<or> ''audio/mp4'' = ''audio/flac'')
      \<and> (''audio/webm;codecs=opus'' = ''audio/webm'' \<or> ''audio/webm;codecs=opus'' = ''audio/ogg'')
        = (''audio/webm;codecs=opus'' = ''audio/webm'' \<or> ''audio/webm;codecs=opus'' = ''audio/ogg''
           \<or> ''audio/webm;codecs=opus'' = ''audio/flac'')
      \<and> (''audio/webm'' = ''audio/webm'' \<or> ''audio/webm'' = ''audio/ogg'')
        = (''audio/webm'' = ''audio/webm'' \<or> ''audio/webm'' = ''audio/ogg''
           \<or> ''audio/webm'' = ''audio/flac'')
      \<and> (''audio/ogg'' = ''audio/webm'' \<or> ''audio/ogg'' = ''audio/ogg'')
        = (''audio/ogg'' = ''audio/webm'' \<or> ''audio/ogg'' = ''audio/ogg''
           \<or> ''audio/ogg'' = ''audio/flac'')"
    by simp
  show "getSupportedFormats (Some (\<lambda>m. m = ''audio/webm'' \<or> m = ''audio/ogg''))
       = getSupportedFormats
           (Some (\<lambda>m. m = ''audio/webm'' \<or> m = ''audio/ogg'' \<or> m = ''audio/flac''))"
    using all [THEN conjunct2, THEN conjunct2, THEN conjunct2, THEN conjunct2] same
    by (rule mp)
  have "filter (\<lambda>f. mimeType f = ''audio/webm'' \<or> mimeType f = ''audio/ogg'')
         [\<lparr>label = ''MP4 (AAC)'', mimeType = ''audio/mp4'', ext = ''mp4''\<rparr>,
          \<lparr>label = ''WebM (Opus)'', mimeType = ''audio/webm;codecs=opus'', ext = ''webm''\<rparr>,
          \<lparr>label = ''WebM'', mimeType = ''audio/webm'', ext = ''webm''\<rparr>,
          \<lparr>label = ''Ogg (Vorbis)'', mimeType = ''audio/ogg'', ext = ''ogg''\<rparr>]
      = [\<lparr>label = ''WebM'', mimeType = ''audio/webm'', ext = ''webm''\<rparr>,
         \<lparr>label = ''Ogg (Vorbis)'', mimeType = ''audio/ogg'', ext = ''ogg''\<rparr>]"
    by simp
  then show "getSupportedFormats (Some (\<lambda>m. m = ''audio/webm'' \<or> m = ''audio/ogg''))
       = [\<lparr>label = ''WAV (Uncompressed)'', mimeType = ''audio/wav'', ext = ''wav''\<rparr>,
          \<lparr>label = ''WebM'', mimeType = ''audio/webm'', ext = ''webm''\<rparr>,
          \<lparr>label = ''Ogg (Vorbis)'', mimeType = ''audio/ogg'', ext = ''ogg''\<rparr>]"
    using two [THEN conjunct1] by (simp only:)
qed

text \<open>
  C10. Without a \<open>MediaRecorder\<close> global the probe does not fail: the result is the WAV
  descriptor alone.
\<close>

theorem getSupportedFormats_without_MediaRecorder: "getSupportedFormats None = [wavFormat]"
  by (simp add: getSupportedFormats_def wavFormat_def)

section \<open>The transcoder: releases of the context\<close>

lemma closed_foldl:
  "closed (foldl (handle mime) t events)
     = closed t + length (filter (\<lambda>e. e = Stop \<or> e = Error) events)"
proof (induction events arbitrary: t)
  case Nil
  then show ?case by simp
next
  case (Cons e events)
  show ?case by (cases e) (simp_all add: Cons.IH settle_def Let_def)
qed

lemma opened_foldl: "opened (foldl (handle mime) t events) = opened t"
proof (induction events arbitrary: t)
  case Nil
  then show ?case by simp
next
  case (Cons e events)
  show ?case by (cases e) (simp_all add: Cons.IH settle_def Let_def)
qed

text \<open>
  C1. Every call creates one context. The context is closed once for each \<open>stop\<close> and each
  \<open>error\<close> event that the platform delivers; when the \<open>MediaRecorder\<close> constructor
  rejects the MIME type, the call fails with \<open>UnsupportedFormatError\<close> before a handler
  is installed, and the context is not closed at all.
\<close>

theorem transcodeToBlob_context_release:
  "opened (transcodeToBlob accepts audioBuffer mime events) = 1
   \<and> closed (transcodeToBlob accepts audioBuffer mime events)
       = (if accepts mime then length (filter (\<lambda>e. e = Stop \<or> e = Error) events) else 0)
   \<and> transcodeToBlob (\<lambda>m. False) audioBuffer mime events
       = \<lparr>opened = 1, closed = 0, chunks = [], stopCalls = 0, timeouts = 0,
          promise = Some (Inl UnsupportedFormatError)\<rparr>"
  by (simp add: transcodeToBlob_def Let_def closed_foldl opened_foldl)

section \<open>The decoder: results\<close>

text \<open>
  C7. For at least one channel, and when the context creates the buffer,
  \<open>decodeAudioData\<close> returns the buffer that the specification describes: the frame
  count is \<open>floor(byteLength / 2 / channels)\<close>, a trailing byte or partial frame is dropped
  without an error, the sample of channel \<open>c\<close> at frame \<open>i\<close> is the little-endian 16-bit
  integer at index \<open>i * channels + c\<close> divided by 32768, and every sample lies in
  \<open>[-1.0, 0.99997]\<close>. (The frame count is below \<open>2 ^ 32\<close>, the range of the length
  argument of \<open>createBuffer\<close>.)
\<close>

theorem decodeAudioData_interpretation:
  assumes "0 < numChannels"
    and "length data div 2 div numChannels < 4294967296"
    and "ctx numChannels (length data div 2 div numChannels) rate"
  shows "decodeAudioData data ctx rate numChannels = Inr (decoded data rate numChannels)
     \<and> numberOfChannels (decoded data rate numChannels) = numChannels
     \<and> list_all (\<lambda>ch. length ch = length data div 2 div numChannels)
          (channels (decoded data rate numChannels))
     \<and> list_all (list_all inUnitRange)
          (channels (decoded data rate numChannels))"
proof (intro conjI)
  show "decodeAudioData data ctx rate numChannels = Inr (decoded data rate numChannels)"
    using assms by (rule decodeAudioData_created)
  show "numberOfChannels (decoded data rate numChannels) = numChannels"
    by (simp add: decoded_def numberOfChannels_def Let_def)
  show "list_all (\<lambda>ch. length ch = length data div 2 div numChannels)
          (channels (decoded data rate numChannels))"
    by (simp add: decoded_def Let_def list_all_iff)
  show "list_all (list_all inUnitRange)
          (channels (decoded data rate numChannels))"
    by (rule decoded_range)
qed

theorem decodeAudioData_interpretation_witness:
  "decodeAudioData [0, 128, 255, 127, 1] strictContext 24000 1
     = Inr \<lparr>sampleRate = 24000, channels = [[Val (- 1), Val (32767 / 32768)]]\<rparr>"
proof -
  have "strictContext 1 (length [0, 128, 255, 127, 1 :: byte] div 2 div 1) 24000"
    by (simp add: strictContext_def)
  then have "decodeAudioData [0, 128, 255, 127, 1] strictContext 24000 1
      = Inr (decoded [0, 128, 255, 127, 1] 24000 1)"
    using decodeAudioData_interpretation [of 1 "[0, 128, 255, 127, 1]" strictContext 24000] by simp
  then show ?thesis
    unfolding decoded_example .
qed

text \<open>
  C4, as stated, fails: on the empty byte array \<open>decodeAudioData\<close> fails with the error
  of the buffer creation where the context refuses a buffer of length 0, and returns an
  empty buffer where the context creates one.
\<close>

theorem decodeAudioData_empty_counterexample:
  "decodeAudioData [] strictContext 24000 1 = Inl AllocationError
   \<and> decodeAudioData [] lenientContext 24000 1 = Inr \<lparr>sampleRate = 24000, channels = [[]]\<rparr>"
proof
  show "decodeAudioData [] strictContext 24000 1 = Inl AllocationError"
    by (rule decodeAudioData_rejected) (simp_all add: strictContext_def)
  have "decodeAudioData [] lenientContext 24000 1 = Inr (decoded [] 24000 1)"
    by (rule decodeAudioData_created) (simp_all add: lenientContext_def)
  then show "decodeAudioData [] lenientContext 24000 1
      = Inr \<lparr>sampleRate = 24000, channels = [[]]\<rparr>"
    by (simp add: decoded_def)
qed

text \<open>
  C4, amended. \<open>decodeAudioData\<close> makes no check of the frame count and never fails with
  \<open>MalformedInputError\<close>. When the frame count is zero it asks the context for a buffer
  of length 0: the call fails with \<open>AllocationError\<close> if the context refuses it, and
  returns the buffer with empty channels if the context creates it.
\<close>

theorem decodeAudioData_no_frame_check:
  "decodeAudioData data ctx rate numChannels \<noteq> Inl MalformedInputError
   \<and> (0 < numChannels \<and> length data div 2 div numChannels = 0 \<longrightarrow>
        decodeAudioData data ctx rate numChannels
          = (if ctx numChannels 0 rate
             then Inr \<lparr>sampleRate = rate, channels = replicate numChannels []\<rparr>
             else Inl AllocationError))"
proof (intro conjI impI)
  show "decodeAudioData data ctx rate numChannels \<noteq> Inl MalformedInputError"
    using decodeAudioData_outcomes [of data ctx rate numChannels] by auto
  assume a: "0 < numChannels \<and> length data div 2 div numChannels = 0"
  show "decodeAudioData data ctx rate numChannels
          = (if ctx numChannels 0 rate
             then Inr \<lparr>sampleRate = rate, channels = replicate numChannels []\<rparr>
             else Inl AllocationError)"
  proof (cases "ctx numChannels 0 rate")
    case True
    have "decodeAudioData data ctx rate numChannels = Inr (decoded data rate numChannels)"
      using a True by (intro decodeAudioData_created) simp_all
    moreover have "decoded data rate numChannels
        = \<lparr>sampleRate = rate, channels = replicate numChannels []\<rparr>"
      using a by (simp add: decoded_def Let_def map_replicate_const)
    ultimately show ?thesis using True by simp
  next
    case False
    have "decodeAudioData data ctx rate numChannels = Inl AllocationError"
      using a False by (intro decodeAudioData_rejected) simp_all
    then show ?thesis using False by simp
  qed
qed

theorem decodeAudioData_no_frame_check_witness:
  "0 < (1 :: nat) \<and> length ([] :: byte list) div 2 div 1 = 0
   \<and> decodeAudioData [] strictContext 24000 1 = Inl AllocationError
   \<and> decodeAudioData [] strictContext 24000 1 \<noteq> Inl MalformedInputError"
  using decodeAudioData_no_frame_check [of "[]" strictContext 24000 1] by (simp add: strictContext_def)

section \<open>The WAV of a buffer\<close>

lemma length_interleaved:
  "length ls = length rs \<Longrightarrow> length (interleaved ls rs) = 2 * length ls"
  by (induction ls rs rule: interleaved.induct) simp_all

lemma nth_interleaved:
  "length ls = length rs \<Longrightarrow> i < length ls \<Longrightarrow>
   interleaved ls rs ! (2 * i) = ls ! i \<and> interleaved ls rs ! (2 * i + 1) = rs ! i"
proof (induction ls rs arbitrary: i rule: interleaved.induct)
  case (1 l ls r rs)
  show ?case
  proof (cases i)
    case 0
    then show ?thesis by simp
  next
    case (Suc j)
    then show ?thesis using "1.prems" "1.IH" [of j] by simp
  qed
qed simp_all

lemma wellFormed_stereo:
  assumes "wellFormed buffer" "numberOfChannels buffer = 2"
  obtains inputL inputR where "channels buffer = [inputL, inputR]"
    "length inputL = frames buffer" "length inputR = frames buffer"
proof -
  obtain inputL inputR where c: "channels buffer = [inputL, inputR]"
    using assms(2) unfolding numberOfChannels_def
    by (metis (no_types, opaque_lifting) Suc_length_conv length_0_conv numeral_2_eq_2)
  then have "length inputL = frames buffer" "length inputR = frames buffer"
    using assms(1) by (simp_all add: wellFormed_def frames_def)
  then show ?thesis using c that by blast
qed

lemma audioBufferToWav_encoded:
  assumes "wellFormed buffer"
  shows "audioBufferToWav buffer
     = encodeWAV (encodedSamples buffer) 1 (sampleRate buffer) (numberOfChannels buffer) 16"
proof (cases "numberOfChannels buffer = 2")
  case True
  obtain inputL inputR where c: "channels buffer = [inputL, inputR]"
    "length inputL = frames buffer" "length inputR = frames buffer"
    using wellFormed_stereo [OF assms True] by blast
  have "buffer = \<lparr>sampleRate = sampleRate buffer, channels = [inputL, inputR]\<rparr>"
    using c(1) by simp
  then have "audioBufferToWav buffer
      = encodeWAV (interleave inputL inputR) 1 (sampleRate buffer) 2 16"
    using audioBufferToWav_stereo [of "sampleRate buffer" inputL inputR] by simp
  then show ?thesis
    using True c by (simp add: encodedSamples_def interleave_equal)
next
  case False
  moreover have "1 \<le> numberOfChannels buffer"
    using assms by (cases "channels buffer") (simp_all add: wellFormed_def numberOfChannels_def)
  ultimately show ?thesis
    using audioBufferToWav_other [of buffer] by (simp add: encodedSamples_def)
qed

lemma length_encodedSamples:
  assumes "wellFormed buffer"
  shows "length (encodedSamples buffer)
     = (if numberOfChannels buffer = 2 then 2 * frames buffer else frames buffer)"
proof (cases "numberOfChannels buffer = 2")
  case True
  obtain inputL inputR where c: "channels buffer = [inputL, inputR]"
    "length inputL = frames buffer" "length inputR = frames buffer"
    using wellFormed_stereo [OF assms True] by blast
  then show ?thesis
    using True by (simp add: encodedSamples_def length_interleaved)
next
  case False
  then show ?thesis by (simp add: encodedSamples_def frames_def)
qed

lemma audioBufferToWav_fields:
  assumes "wellFormed buffer"
    and "numberOfChannels buffer * 2 < 65536"
    and "sampleRate buffer * (numberOfChannels buffer * 2) < 4294967296"
    and "36 + 2 * length (encodedSamples buffer) < 4294967296"
  shows "\<exists>blob. audioBufferToWav buffer = Inr blob
     \<and> blob_type blob = ''audio/wav''
     \<and> length (blob_bytes blob) = 44 + 2 * length (encodedSamples buffer)
     \<and> readHeader (blob_bytes blob) =
         \<lparr>hdrChunkID = ''RIFF'',
          hdrChunkSize = 36 + 2 * length (encodedSamples buffer),
          hdrFormat = ''WAVE'',
          hdrSubchunk1ID = ''fmt '',
          hdrSubchunk1Size = 16,
          hdrAudioFormat = 1,
          hdrNumChannels = numberOfChannels buffer,
          hdrSampleRate = sampleRate buffer,
          hdrByteRate = sampleRate buffer * (numberOfChannels buffer * 2),
          hdrBlockAlign = numberOfChannels buffer * 2,
          hdrBitsPerSample = 16,
          hdrSubchunk2ID = ''data'',
          hdrSubchunk2Size = 2 * length (encodedSamples buffer)\<rparr>
     \<and> pcmPayload (blob_bytes blob) = map pcm16Number (encodedSamples buffer)"
proof -
  define n where "n = length (encodedSamples buffer)"
  define c where "c = numberOfChannels buffer"
  define r where "r = sampleRate buffer"
  have c1: "1 \<le> c"
    using assms(1) by (cases "channels buffer") (simp_all add: wellFormed_def numberOfChannels_def c_def)
  have "r * 1 \<le> r * (c * 2)" using c1 by (intro mult_le_mono2) simp
  moreover have "r * (c * 2) < 4294967296" using assms(3) by (simp only: r_def c_def)
  ultimately have r: "r < 4294967296" by linarith
  have m: "(36 + 2 * n) mod 4294967296 = 36 + 2 * n" "(2 * n) mod 4294967296 = 2 * n"
    "c mod 65536 = c" "(c * 2) mod 65536 = c * 2" "r mod 4294967296 = r"
    "(r * (c * 2)) mod 4294967296 = r * (c * 2)"
    using assms(2-4) r by (simp_all add: n_def c_def r_def)
  have "audioBufferToWav buffer
      = Inr \<lparr>blob_bytes = wavHeader (2 * n) 1 r c 16 @ concat (map pcmBytes (encodedSamples buffer)),
             blob_type = ''audio/wav''\<rparr>"
    using audioBufferToWav_encoded [OF assms(1)]
    by (simp add: encodeWAV_bytes n_def c_def r_def)
  then show ?thesis
    using m
    by (simp add: readHeader_wavHeader pcmPayload_encoded n_def [symmetric] c_def [symmetric]
        r_def [symmetric])
qed

text \<open>
  C6. For a buffer of the platform (at least one channel, all channels of one length)
  whose values fit the fields of the header, \<open>audioBufferToWav\<close> returns a blob of type
  \<open>audio/wav\<close> of 44 bytes plus two bytes per encoded sample. Read field by field, low
  byte first, the header is the canonical one: \<open>RIFF\<close>, \<open>36 + dataSize\<close>, \<open>WAVE\<close>, \<open>fmt \<close>, 16,
  format 1, the channel count, the sample rate, the byte rate \<open>sampleRate * blockAlign\<close>,
  the block align \<open>channels * 2\<close>, 16 bits per sample, \<open>data\<close>, and the data size
  \<open>sampleCount * 2\<close>; the payload follows. For a mono buffer of \<open>F\<close> frames the blob has
  \<open>44 + F * 2\<close> bytes.
\<close>

theorem audioBufferToWav_header:
  assumes "wellFormed buffer"
    and "numberOfChannels buffer * 2 < 65536"
    and "sampleRate buffer * (numberOfChannels buffer * 2) < 4294967296"
    and "36 + 2 * length (encodedSamples buffer) < 4294967296"
  shows "\<exists>blob. audioBufferToWav buffer = Inr blob
     \<and> blob_type blob = ''audio/wav''
     \<and> length (blob_bytes blob) = 44 + 2 * length (encodedSamples buffer)
     \<and> readHeader (blob_bytes blob) =
         \<lparr>hdrChunkID = ''RIFF'',
          hdrChunkSize = 36 + 2 * length (encodedSamples buffer),
          hdrFormat = ''WAVE'',
          hdrSubchunk1ID = ''fmt '',
          hdrSubchunk1Size = 16,
          hdrAudioFormat = 1,
          hdrNumChannels = numberOfChannels buffer,
          hdrSampleRate = sampleRate buffer,
          hdrByteRate = sampleRate buffer * (numberOfChannels buffer * 2),
          hdrBlockAlign = numberOfChannels buffer * 2,
          hdrBitsPerSample = 16,
          hdrSubchunk2ID = ''data'',
          hdrSubchunk2Size = 2 * length (encodedSamples buffer)\<rparr>
     \<and> pcmPayload (blob_bytes blob) = map pcm16Number (encodedSamples buffer)
     \<and> (numberOfChannels buffer = 1 \<longrightarrow> length (blob_bytes blob) = 44 + frames buffer * 2)"
proof -
  have "numberOfChannels buffer = 1 \<longrightarrow> length (encodedSamples buffer) = frames buffer"
    using length_encodedSamples [OF assms(1)] by simp
  then show ?thesis
    using audioBufferToWav_fields [OF assms] by auto
qed

theorem audioBufferToWav_header_witness:
  "wellFormed \<lparr>sampleRate = 24000, channels = [[Val (1 / 2), Val (- 1)]]\<rparr>
   \<and> (\<exists>blob. audioBufferToWav \<lparr>sampleRate = 24000, channels = [[Val (1 / 2), Val (- 1)]]\<rparr>
                = Inr blob
        \<and> length (blob_bytes blob) = 48
        \<and> readHeader (blob_bytes blob) =
         \<lparr>hdrChunkID = ''RIFF'', hdrChunkSize = 40, hdrFormat = ''WAVE'',
          hdrSubchunk1ID = ''fmt '', hdrSubchunk1Size = 16, hdrAudioFormat = 1,
          hdrNumChannels = 1, hdrSampleRate = 24000, hdrByteRate = 48000,
          hdrBlockAlign = 2, hdrBitsPerSample = 16, hdrSubchunk2ID = ''data'',
          hdrSubchunk2Size = 4\<rparr>)"
proof -
  let ?b = "\<lparr>sampleRate = 24000, channels = [[Val (1 / 2), Val (- 1)]]\<rparr>"
  have w: "wellFormed ?b"
    by (simp add: wellFormed_def frames_def)
  have e: "encodedSamples ?b = [Val (1 / 2), Val (- 1)]"
    by (simp add: encodedSamples_def numberOfChannels_def)
  have n: "numberOfChannels ?b = 1"
    by (simp add: numberOfChannels_def)
  show ?thesis
    using w audioBufferToWav_header [of ?b] by (auto simp: e n)
qed

text \<open>
  C8. For a buffer of the platform, \<open>audioBufferToWav\<close> does not fail. With two channels
  the payload alternates them: sample \<open>2 * i\<close> is frame \<open>i\<close> of the left channel and sample
  \<open>2 * i + 1\<close> is frame \<open>i\<close> of the right channel. With any other number of channels the
  payload is channel 0 alone.
\<close>

theorem audioBufferToWav_channel_order:
  assumes "wellFormed buffer"
  shows "\<exists>blob. audioBufferToWav buffer = Inr blob
     \<and> (if numberOfChannels buffer = 2
         then length (pcmPayload (blob_bytes blob)) = 2 * frames buffer
              \<and> (\<forall>i < frames buffer.
                    pcmPayload (blob_bytes blob) ! (2 * i)
                      = pcm16Number (channels buffer ! 0 ! i)
                    \<and> pcmPayload (blob_bytes blob) ! (2 * i + 1)
                      = pcm16Number (channels buffer ! 1 ! i))
         else pcmPayload (blob_bytes blob) = map pcm16Number (channels buffer ! 0))"
proof -
  obtain blob where b: "audioBufferToWav buffer = Inr blob"
    "pcmPayload (blob_bytes blob) = map pcm16Number (encodedSamples buffer)"
    using audioBufferToWav_encoded [OF assms]
      encodeWAV_payload [of "encodedSamples buffer" 1 "sampleRate buffer" "numberOfChannels buffer"]
    by auto
  show ?thesis
  proof (cases "numberOfChannels buffer = 2")
    case True
    obtain inputL inputR where c: "channels buffer = [inputL, inputR]"
      "length inputL = frames buffer" "length inputR = frames buffer"
      using wellFormed_stereo [OF assms True] by blast
    have e: "encodedSamples buffer = interleaved inputL inputR"
      using True c by (simp add: encodedSamples_def)
    have len: "length (interleaved inputL inputR) = 2 * frames buffer"
      using c length_interleaved [of inputL inputR] by simp
    have "pcmPayload (blob_bytes blob) ! (2 * i) = pcm16Number (channels buffer ! 0 ! i)
        \<and> pcmPayload (blob_bytes blob) ! (2 * i + 1) = pcm16Number (channels buffer ! 1 ! i)"
      if "i < frames buffer" for i
    proof -
      have "2 * i < length (interleaved inputL inputR)"
        "2 * i + 1 < length (interleaved inputL inputR)"
        using that len by simp_all
      then show ?thesis
        using nth_interleaved [of inputL inputR i] c that by (simp add: b(2) e)
    qed
    then show ?thesis
      using True b len by (auto simp: e)
  next
    case False
    have "channels buffer \<noteq> []" using assms by (simp add: wellFormed_def)
    then have "hd (channels buffer) = channels buffer ! 0" by (simp add: hd_conv_nth)
    then show ?thesis
      using False b by (auto simp: encodedSamples_def)
  qed
qed

theorem audioBufferToWav_channel_order_witness:
  "(\<exists>blob. audioBufferToWav \<lparr>sampleRate = 24000,
        channels = [[Val (1 / 2), Val (- (1 / 2))], [Val (1 / 4), Val (- (1 / 4))]]\<rparr> = Inr blob
      \<and> length (pcmPayload (blob_bytes blob)) = 4
      \<and> pcmPayload (blob_bytes blob) ! 0 = pcm16Number (Val (1 / 2))
      \<and> pcmPayload (blob_bytes blob) ! 1 = pcm16Number (Val (1 / 4))
      \<and> pcmPayload (blob_bytes blob) ! 2 = pcm16Number (Val (- (1 / 2)))
      \<and> pcmPayload (blob_bytes blob) ! 3 = pcm16Number (Val (- (1 / 4))))
   \<and> (\<exists>blob. audioBufferToWav \<lparr>sampleRate = 24000,
        channels = [[Val (1 / 2)], [Val (1 / 4)], [Val 0]]\<rparr> = Inr blob
      \<and> pcmPayload (blob_bytes blob) = [pcm16Number (Val (1 / 2))])"
proof
  let ?b = "\<lparr>sampleRate = 24000,
        channels = [[Val (1 / 2), Val (- (1 / 2))], [Val (1 / 4), Val (- (1 / 4))]]\<rparr>"
  have w: "wellFormed ?b" by (simp add: wellFormed_def frames_def)
  have n: "numberOfChannels ?b = 2" "frames ?b = 2"
    by (simp_all add: numberOfChannels_def frames_def)
  obtain blob where b: "audioBufferToWav ?b = Inr blob"
    "length (pcmPayload (blob_bytes blob)) = 2 * 2"
    "\<forall>i < 2. pcmPayload (blob_bytes blob) ! (2 * i) = pcm16Number (channels ?b ! 0 ! i)
        \<and> pcmPayload (blob_bytes blob) ! (2 * i + 1) = pcm16Number (channels ?b ! 1 ! i)"
    using audioBufferToWav_channel_order [OF w] unfolding n by auto
  have "pcmPayload (blob_bytes blob) ! (2 * 0) = pcm16Number (channels ?b ! 0 ! 0)
      \<and> pcmPayload (blob_bytes blob) ! (2 * 0 + 1) = pcm16Number (channels ?b ! 1 ! 0)"
    "pcmPayload (blob_bytes blob) ! (2 * 1) = pcm16Number (channels ?b ! 0 ! 1)
      \<and> pcmPayload (blob_bytes blob) ! (2 * 1 + 1) = pcm16Number (channels ?b ! 1 ! 1)"
    using b(3) [rule_format, of 0] b(3) [rule_format, of 1] by simp_all
  then show "\<exists>blob. audioBufferToWav ?b = Inr blob
      \<and> length (pcmPayload (blob_bytes blob)) = 4
      \<and> pcmPayload (blob_bytes blob) ! 0 = pcm16Number (Val (1 / 2))
      \<and> pcmPayload (blob_bytes blob) ! 1 = pcm16Number (Val (1 / 4))
      \<and> pcmPayload (blob_bytes blob) ! 2 = pcm16Number (Val (- (1 / 2)))
      \<and> pcmPayload (blob_bytes blob) ! 3 = pcm16Number (Val (- (1 / 4)))"
    using b(1,2) by simp
next
  let ?b = "\<lparr>sampleRate = 24000, channels = [[Val (1 / 2)], [Val (1 / 4)], [Val 0]]\<rparr>"
  have w: "wellFormed ?b" by (simp add: wellFormed_def frames_def)
  have n: "numberOfChannels ?b \<noteq> 2"
    by (simp add: numberOfChannels_def)
  show "\<exists>blob. audioBufferToWav ?b = Inr blob
      \<and> pcmPayload (blob_bytes blob) = [pcm16Number (Val (1 / 2))]"
    using audioBufferToWav_channel_order [OF w] n by simp
qed

section \<open>The round trip\<close>

lemma pcm16_of_int16:
  assumes "- 32768 \<le> k" "k \<le> 32767"
  shows "pcm16 (of_int k / 32768) = (if 0 < k then k - 1 else k)"
proof -
  define c :: rat where "c = of_int k / 32768"
  have "(of_int (- 32768) :: rat) \<le> of_int k" "(of_int k :: rat) \<le> of_int 32767"
    using assms by (simp_all only: of_int_le_iff)
  then have b: "- 1 \<le> c" "c \<le> 1" by (simp_all add: c_def)
  then have clamp: "max (- 1) (min 1 c) = c" by simp
  consider "k < 0" | "k = 0" | "0 < k" by linarith
  then show ?thesis
  proof cases
    case 1
    then have "(of_int k :: rat) < 0" by simp
    then have neg: "c < 0" by (simp add: c_def)
    have "c * 32768 = of_int k" by (simp add: c_def)
    moreover have "trunc (of_int k) = k" using 1 by (simp add: trunc_def)
    ultimately show ?thesis
      using 1 neg unfolding pcm16_def Let_def c_def [symmetric] clamp by simp
  next
    case 2
    then show ?thesis by (simp add: pcm16_def trunc_def)
  next
    case 3
    then have "(0 :: rat) < of_int k" by simp
    then have pos: "0 < c" by (simp add: c_def)
    have lt: "c < 1"
    proof -
      have "(of_int k :: rat) < of_int 32768" using assms by (simp only: of_int_less_iff)
      then show ?thesis by (simp add: c_def)
    qed
    have v: "c * 32767 = of_int k - c" by (simp add: c_def)
    have "\<lfloor>of_int k - c\<rfloor> = k - 1"
      using pos lt by (intro floor_unique) simp_all
    moreover have "\<not> of_int k - c < 0"
    proof -
      have "(1 :: rat) \<le> of_int k" using 3 by simp
      then show ?thesis using lt by linarith
    qed
    ultimately have "trunc (c * 32767) = k - 1"
      by (simp add: trunc_def v)
    then show ?thesis
      using 3 pos unfolding pcm16_def Let_def c_def [symmetric] clamp by simp
  qed
qed

lemma quantizationError_int16:
  assumes "- 32768 \<le> k" "k \<le> 32767"
  shows "quantizationError (Val (of_int k / 32768))
     = (if js_less (Val 0) (Val (of_int k / 32768)) then 1 / 32768 else 0)"
proof -
  have "(0 < (of_int k :: rat) / 32768) = (0 < k)" by simp
  then show ?thesis
    using pcm16_of_int16 [OF assms]
    by (simp add: quantizationError_def pcm16Number_def diff_divide_distrib [symmetric])
qed

lemma set_interleaved: "set (interleaved ls rs) \<subseteq> set ls \<union> set rs"
  by (induction ls rs rule: interleaved.induct) auto

lemma set_encodedSamples:
  assumes "wellFormed buffer"
  shows "set (encodedSamples buffer) \<subseteq> \<Union> (set ` set (channels buffer))"
proof (cases "numberOfChannels buffer = 2")
  case True
  obtain inputL inputR where c: "channels buffer = [inputL, inputR]"
    using wellFormed_stereo [OF assms True] by blast
  then show ?thesis
    using True set_interleaved [of inputL inputR] by (auto simp: encodedSamples_def)
next
  case False
  have "channels buffer \<noteq> []" using assms by (simp add: wellFormed_def)
  then have "hd (channels buffer) \<in> set (channels buffer)" by simp
  then show ?thesis using False by (auto simp: encodedSamples_def)
qed

lemma decoded_wellFormed:
  assumes "0 < numChannels"
  shows "wellFormed (decoded data rate numChannels)"
    and "frames (decoded data rate numChannels) = length data div 2 div numChannels"
    and "numberOfChannels (decoded data rate numChannels) = numChannels"
    and "sampleRate (decoded data rate numChannels) = rate"
proof -
  have ne: "[0..<numChannels] \<noteq> []" using assms by simp
  then have "hd [0..<numChannels] = 0" using assms by (simp add: hd_conv_nth)
  then show f: "frames (decoded data rate numChannels) = length data div 2 div numChannels"
    using ne by (simp add: frames_def decoded_def Let_def hd_map)
  show "wellFormed (decoded data rate numChannels)"
    unfolding wellFormed_def f using assms by (simp add: decoded_def Let_def list_all_iff)
  show "numberOfChannels (decoded data rate numChannels) = numChannels"
    by (simp add: decoded_def numberOfChannels_def Let_def)
  show "sampleRate (decoded data rate numChannels) = rate"
    by (simp add: decoded_def Let_def)
qed

lemma decoded_quantization:
  assumes "0 < numChannels"
  shows "list_all (\<lambda>x. quantizationError x = (if js_less (Val 0) x then 1 / 32768 else 0))
           (encodedSamples (decoded data rate numChannels))"
proof -
  have "quantizationError x = (if js_less (Val 0) x then 1 / 32768 else 0)"
    if mem: "x \<in> \<Union> (set ` set (channels (decoded data rate numChannels)))" for x
  proof -
    obtain lo hi where "x = Val (of_int (int16At lo hi) / 32768)"
      using mem by (auto simp: decoded_def Let_def)
    then show ?thesis
      using quantizationError_int16 [of "int16At lo hi"] int16At_range [of lo hi] by simp
  qed
  then show ?thesis
    using set_encodedSamples [OF decoded_wellFormed(1) [OF assms, of data rate]]
    unfolding list_all_iff by blast
qed

lemma roundTripPayload_decoded:
  assumes "0 < numChannels"
    and "length data div 2 div numChannels < 4294967296"
    and "ctx numChannels (length data div 2 div numChannels) rate"
  shows "roundTripPayload data ctx rate numChannels
     = Inr (map pcm16Number (encodedSamples (decoded data rate numChannels)))"
proof -
  have "audioBufferToWav (decoded data rate numChannels)
      = encodeWAV (encodedSamples (decoded data rate numChannels)) 1
          (sampleRate (decoded data rate numChannels))
          (numberOfChannels (decoded data rate numChannels)) 16"
    using decoded_wellFormed(1) [OF assms(1)] by (rule audioBufferToWav_encoded)
  then show ?thesis
    using decodeAudioData_created [of numChannels data ctx rate] assms
    by (simp add: roundTripPayload_def encodeWAV_bytes pcmPayload_encoded)
qed

lemma decoded_extremes:
  "decoded [0, 128, 255, 127] 24000 1
     = \<lparr>sampleRate = 24000, channels = [[Val (- 1), Val (32767 / 32768)]]\<rparr>"
  by (simp add: decoded_def Let_def int16At_def upt_rec)

lemma decoded_one:
  "decoded [1, 0] 24000 1 = \<lparr>sampleRate = 24000, channels = [[Val (1 / 32768)]]\<rparr>"
  by (simp add: decoded_def Let_def int16At_def upt_rec)

lemma pcm16Number_extremes:
  "pcm16Number (Val (- 1)) = - 32768"
  "pcm16Number (Val (32767 / 32768)) = 32766"
  "pcm16Number (Val (1 / 32768)) = 0"
  using pcm16_of_int16 [of "- 32768"] pcm16_of_int16 [of 32767] pcm16_of_int16 [of 1]
  by (simp_all add: pcm16Number_def)

lemma two_frames: "length [0, 128, 255, 127 :: byte] div 2 div 1 = 2"
  by simp

lemma roundTripPayload_extremes:
  assumes "ctx 1 2 24000"
  shows "roundTripPayload [0, 128, 255, 127] ctx 24000 1 = Inr [- 32768, 32766]"
proof -
  have c: "ctx 1 (length [0, 128, 255, 127 :: byte] div 2 div 1) 24000"
    unfolding two_frames by (rule assms)
  have "roundTripPayload [0, 128, 255, 127] ctx 24000 1
      = Inr (map pcm16Number (encodedSamples (decoded [0, 128, 255, 127] 24000 1)))"
    using roundTripPayload_decoded [of 1 "[0, 128, 255, 127]" ctx 24000] c by simp
  then show ?thesis
    unfolding decoded_extremes
    by (simp add: encodedSamples_def numberOfChannels_def pcm16Number_extremes)
qed

text \<open>
  C2, as stated, fails: the 16-bit sample 1 decodes to \<open>1 / 32768\<close>, which is encoded as
  0; decoded again it differs from the sample by \<open>1 / 32768\<close>, which is not less than
  \<open>1 / 32768\<close>.
\<close>

theorem roundTrip_quantization_counterexample:
  "decodeAudioData [1, 0] strictContext 24000 1
     = Inr \<lparr>sampleRate = 24000, channels = [[Val (1 / 32768)]]\<rparr>
   \<and> roundTripPayload [1, 0] strictContext 24000 1 = Inr [0]
   \<and> \<not> \<bar>1 / 32768 - of_int 0 / 32768 :: rat\<bar> < 1 / 32768"
proof (intro conjI)
  have c: "strictContext 1 (length [1, 0 :: byte] div 2 div 1) 24000"
    by (simp add: strictContext_def)
  have "decodeAudioData [1, 0] strictContext 24000 1 = Inr (decoded [1, 0] 24000 1)"
    using c by (intro decodeAudioData_created) simp_all
  then show "decodeAudioData [1, 0] strictContext 24000 1
     = Inr \<lparr>sampleRate = 24000, channels = [[Val (1 / 32768)]]\<rparr>"
    unfolding decoded_one .
  have "roundTripPayload [1, 0] strictContext 24000 1
      = Inr (map pcm16Number (encodedSamples (decoded [1, 0] 24000 1)))"
    using c by (intro roundTripPayload_decoded) simp_all
  then show "roundTripPayload [1, 0] strictContext 24000 1 = Inr [0]"
    unfolding decoded_one
    by (simp add: encodedSamples_def numberOfChannels_def pcm16Number_extremes)
  show "\<not> \<bar>1 / 32768 - of_int 0 / 32768 :: rat\<bar> < 1 / 32768"
    by simp
qed

text \<open>
  C2, amended. For bytes that encode a whole number of frames, when the context creates
  the buffer and the values fit the fields of the header, the WAV of the decoded buffer
  has the canonical header for the channel count and the sample rate, with the data size
  of the samples it encodes: all of them for one or two channels, and those of channel 0
  for more. Each encoded sample, decoded again, differs from the float sample by exactly
  \<open>1 / 32768\<close> if the sample is positive and by 0 otherwise: by at most \<open>1 / 32768\<close>.
\<close>

theorem roundTrip_header_and_quantization:
  assumes "0 < numChannels"
    and "length data = 2 * (frameCount * numChannels)"
    and "frameCount < 4294967296"
    and "ctx numChannels frameCount rate"
    and "numChannels * 2 < 65536"
    and "rate * (numChannels * 2) < 4294967296"
    and "36 + 2 * (frameCount * numChannels) < 4294967296"
  shows "\<exists>buffer blob.
       decodeAudioData data ctx rate numChannels = Inr buffer
     \<and> audioBufferToWav buffer = Inr blob
     \<and> readHeader (blob_bytes blob) =
         \<lparr>hdrChunkID = ''RIFF'',
          hdrChunkSize = 36 + 2 * length (encodedSamples buffer),
          hdrFormat = ''WAVE'',
          hdrSubchunk1ID = ''fmt '',
          hdrSubchunk1Size = 16,
          hdrAudioFormat = 1,
          hdrNumChannels = numChannels,
          hdrSampleRate = rate,
          hdrByteRate = rate * (numChannels * 2),
          hdrBlockAlign = numChannels * 2,
          hdrBitsPerSample = 16,
          hdrSubchunk2ID = ''data'',
          hdrSubchunk2Size = 2 * length (encodedSamples buffer)\<rparr>
     \<and> length (encodedSamples buffer) = (if numChannels = 2 then 2 * frameCount else frameCount)
     \<and> pcmPayload (blob_bytes blob) = map pcm16Number (encodedSamples buffer)
     \<and> list_all (\<lambda>x. quantizationError x = (if js_less (Val 0) x then 1 / 32768 else 0))
          (encodedSamples buffer)"
proof -
  define buffer where "buffer = decoded data rate numChannels"
  have fc: "length data div 2 div numChannels = frameCount"
    using assms(1,2) by simp
  have d: "decodeAudioData data ctx rate numChannels = Inr buffer"
    unfolding buffer_def using assms(1,3,4) fc by (intro decodeAudioData_created) simp_all
  have w: "wellFormed buffer" "frames buffer = frameCount" "numberOfChannels buffer = numChannels"
    "sampleRate buffer = rate"
    using decoded_wellFormed [OF assms(1), of data rate] fc by (simp_all add: buffer_def)
  have len: "length (encodedSamples buffer) = (if numChannels = 2 then 2 * frameCount else frameCount)"
    using length_encodedSamples [OF w(1)] w by simp
  have "frameCount * 1 \<le> frameCount * numChannels"
    using assms(1) by (intro mult_le_mono2) simp
  then have "length (encodedSamples buffer) \<le> frameCount * numChannels"
    using len by (auto simp: mult.commute)
  then have fit: "36 + 2 * length (encodedSamples buffer) < 4294967296"
    using assms(7) by linarith
  obtain blob where b: "audioBufferToWav buffer = Inr blob"
     "readHeader (blob_bytes blob) =
         \<lparr>hdrChunkID = ''RIFF'',
          hdrChunkSize = 36 + 2 * length (encodedSamples buffer),
          hdrFormat = ''WAVE'',
          hdrSubchunk1ID = ''fmt '',
          hdrSubchunk1Size = 16,
          hdrAudioFormat = 1,
          hdrNumChannels = numberOfChannels buffer,
          hdrSampleRate = sampleRate buffer,
          hdrByteRate = sampleRate buffer * (numberOfChannels buffer * 2),
          hdrBlockAlign = numberOfChannels buffer * 2,
          hdrBitsPerSample = 16,
          hdrSubchunk2ID = ''data'',
          hdrSubchunk2Size = 2 * length (encodedSamples buffer)\<rparr>"
     "pcmPayload (blob_bytes blob) = map pcm16Number (encodedSamples buffer)"
    using audioBufferToWav_fields [of buffer] w assms(5,6) fit by auto
  have q: "list_all (\<lambda>x. quantizationError x = (if js_less (Val 0) x then 1 / 32768 else 0))
          (encodedSamples buffer)"
    unfolding buffer_def using assms(1) by (rule decoded_quantization)
  show ?thesis
    using d b len q unfolding w by blast
qed

theorem roundTrip_header_and_quantization_witness:
  "\<exists>buffer blob.
       decodeAudioData [1, 0, 0, 128] strictContext 24000 1 = Inr buffer
     \<and> audioBufferToWav buffer = Inr blob
     \<and> hdrChunkSize (readHeader (blob_bytes blob)) = 40
     \<and> hdrNumChannels (readHeader (blob_bytes blob)) = 1
     \<and> hdrSampleRate (readHeader (blob_bytes blob)) = 24000
     \<and> hdrSubchunk2Size (readHeader (blob_bytes blob)) = 4
     \<and> length (encodedSamples buffer) = 2
     \<and> pcmPayload (blob_bytes blob) = map pcm16Number (encodedSamples buffer)"
proof -
  have c: "strictContext 1 2 24000" by (simp add: strictContext_def)
  obtain buffer blob where f:
    "decodeAudioData [1, 0, 0, 128] strictContext 24000 1 = Inr buffer"
    "audioBufferToWav buffer = Inr blob"
    "readHeader (blob_bytes blob) =
         \<lparr>hdrChunkID = ''RIFF'',
          hdrChunkSize = 36 + 2 * length (encodedSamples buffer),
          hdrFormat = ''WAVE'',
          hdrSubchunk1ID = ''fmt '',
          hdrSubchunk1Size = 16,
          hdrAudioFormat = 1,
          hdrNumChannels = 1,
          hdrSampleRate = 24000,
          hdrByteRate = 24000 * (1 * 2),
          hdrBlockAlign = 1 * 2,
          hdrBitsPerSample = 16,
          hdrSubchunk2ID = ''data'',
          hdrSubchunk2Size = 2 * length (encodedSamples buffer)\<rparr>"
    "length (encodedSamples buffer) = (if (1 :: nat) = 2 then 2 * 2 else 2)"
    "pcmPayload (blob_bytes blob) = map pcm16Number (encodedSamples buffer)"
    using roundTrip_header_and_quantization [of 1 "[1, 0, 0, 128]" 2 strictContext 24000] c by auto
  show ?thesis
    using f by (intro exI [of _ buffer] exI [of _ blob]) simp
qed

text \<open>
  C3, as stated, fails: the WAV of the decoded buffer does not hold 32767 for the second
  sample.
\<close>

theorem roundTrip_extremes_counterexample:
  "roundTripPayload [0, 128, 255, 127] lenientContext 24000 1 \<noteq> Inr [- 32768, 32767]"
proof -
  have "lenientContext 1 2 24000" by (simp add: lenientContext_def)
  then show ?thesis using roundTripPayload_extremes [of lenientContext] by simp
qed

text \<open>
  C3, amended. When the context creates a mono buffer of two frames at 24000 hertz, the
  bytes \<open>00 80 FF 7F\<close> decode to the samples \<open>-1\<close> and \<open>32767 / 32768\<close> (within \<open>0.00001\<close> of
  \<open>0.99997\<close>), and the WAV of that buffer holds \<open>-32768\<close> and \<open>32766\<close>: the negative
  extreme is reproduced, the positive extreme comes back one below.
\<close>

theorem roundTrip_extremes:
  assumes "ctx 1 2 24000"
  shows "decodeAudioData [0, 128, 255, 127] ctx 24000 1
       = Inr \<lparr>sampleRate = 24000, channels = [[Val (- 1), Val (32767 / 32768)]]\<rparr>
     \<and> \<bar>32767 / 32768 - 99997 / 100000 :: rat\<bar> < 1 / 100000
     \<and> roundTripPayload [0, 128, 255, 127] ctx 24000 1 = Inr [- 32768, 32766]"
proof (intro conjI)
  have c: "ctx 1 (length [0, 128, 255, 127 :: byte] div 2 div 1) 24000"
    unfolding two_frames by (rule assms)
  have "decodeAudioData [0, 128, 255, 127] ctx 24000 1
      = Inr (decoded [0, 128, 255, 127] 24000 1)"
    using decodeAudioData_created [of 1 "[0, 128, 255, 127]" ctx 24000] c by simp
  then show "decodeAudioData [0, 128, 255, 127] ctx 24000 1
       = Inr \<lparr>sampleRate = 24000, channels = [[Val (- 1), Val (32767 / 32768)]]\<rparr>"
    unfolding decoded_extremes .
  show "\<bar>32767 / 32768 - 99997 / 100000 :: rat\<bar> < 1 / 100000"
    by simp
  show "roundTripPayload [0, 128, 255, 127] ctx 24000 1 = Inr [- 32768, 32766]"
    using assms by (rule roundTripPayload_extremes)
qed

theorem roundTrip_extremes_witness:
  "strictContext 1 2 24000
   \<and> roundTripPayload [0, 128, 255, 127] strictContext 24000 1 = Inr [- 32768, 32766]"
proof -
  have "strictContext 1 2 24000" by (simp add: strictContext_def)
  then show ?thesis using roundTrip_extremes [of strictContext] by simp
qed

end
